theory Spec2Isabelle
  imports Main "HOL-Library.Word" "HOL-Library.Monad_Syntax"
begin

section \<open>Machine-level primitives\<close>

text \<open>
  Bytes are 8-bit words. The counters of \<^verbatim>\<open>board/can_comms.h\<close> (\<^verbatim>\<open>ptr\<close>, \<^verbatim>\<open>tail_size\<close>,
  \<^verbatim>\<open>pos\<close>, \<^verbatim>\<open>len\<close>, \<^verbatim>\<open>pckt_len\<close>) are \<^verbatim>\<open>uint32_t\<close>: they are natural numbers here and every
  addition and subtraction of the source is written with its wrap-around modulo \<open>2 ^ 32\<close>.

  A result of type \<open>'a option\<close> is \<open>None\<close> when the C execution has no defined result:
  an access outside the object it addresses, or a loop that never ends.
\<close>

type_synonym u8 = "8 word"

definition u32_add :: "nat \<Rightarrow> nat \<Rightarrow> nat" where
  "u32_add a b = (a + b) mod 2 ^ 32"

definition u32_sub :: "nat \<Rightarrow> nat \<Rightarrow> nat" where
  "u32_sub a b = (a + 2 ^ 32 - b mod 2 ^ 32) mod 2 ^ 32"

text \<open>
  The conversion of a \<^verbatim>\<open>uint32_t\<close> to \<^verbatim>\<open>int\<close>, as \<^verbatim>\<open>return pos\<close> of \<^verbatim>\<open>comms_can_read\<close> makes
  it: the value itself below \<open>2 ^ 31\<close>, and the two's complement reading above.
\<close>

definition int_of_u32 :: "nat \<Rightarrow> int" where
  "int_of_u32 a = (if a mod 2 ^ 32 < 2 ^ 31 then int (a mod 2 ^ 32) else int (a mod 2 ^ 32) - 2 ^ 32)"

text \<open>
  \<^verbatim>\<open>memcpy(&dst[d], &src[s], n)\<close> on two arrays given by their contents. All \<open>n\<close> bytes are
  read from \<open>src\<close> as it is before the call. The one call of the source whose regions lie
  in the same array (line 53) copies towards lower addresses, where an ascending byte
  copy gives this result: the remainder is shifted to the front of the buffer, as the
  spec words that step. A call that leaves either array is undefined.
\<close>

definition memcpy :: "u8 list \<Rightarrow> nat \<Rightarrow> u8 list \<Rightarrow> nat \<Rightarrow> nat \<Rightarrow> u8 list option" where
  "memcpy dst d src s n =
     (if d + n \<le> length dst \<and> s + n \<le> length src
      then Some (take d dst @ take n (drop s src) @ drop (d + n) dst)
      else None)"

section \<open>Declarations used by the file and made elsewhere\<close>

text \<open>
  Modelled from the spec: the macro \<^verbatim>\<open>CANPACKET_HEAD_SIZE\<close> is defined outside the two
  source files. The frame header has 6 bytes (bytes 0 to 5 of the layout drawn at the top
  of \<^verbatim>\<open>can_comms.h\<close>; the payload starts at byte 6).
\<close>

definition CANPACKET_HEAD_SIZE :: nat where
  "CANPACKET_HEAD_SIZE = 6"

text \<open>
  Modelled from the spec: the type \<^verbatim>\<open>CANPacket_t\<close> is declared outside the two source
  files. A packet object is its byte image: 6 header bytes and 64 payload bytes, 70 bytes
  rounded up to 72, the size of the staging arrays. \<^verbatim>\<open>CANPacket_t to_push = {0}\<close> is the
  all-zero image.
\<close>

definition CANPACKET_SIZE :: nat where
  "CANPACKET_SIZE = 72"

definition CANPacket_zero :: "u8 list" where
  "CANPacket_zero = replicate CANPACKET_SIZE 0"

text \<open>
  The bit-fields of byte 0, as the layout comment of \<^verbatim>\<open>can_comms.h\<close> gives them:
  \<^verbatim>\<open>DLC[7:4], bus[3:1], fd[0]\<close>. \<open>data_len_code_at xs i\<close> is \<^verbatim>\<open>xs[i] >> 4\<close>.
\<close>

definition data_len_code_at :: "u8 list \<Rightarrow> nat \<Rightarrow> nat option" where
  "data_len_code_at xs i = (if i < length xs then Some (unat (drop_bit 4 (xs ! i))) else None)"

definition bus :: "u8 list \<Rightarrow> nat" where
  "bus p = (case p of [] \<Rightarrow> 0 | b # _ \<Rightarrow> unat (take_bit 3 (drop_bit 1 b)))"

text \<open>
  The declarations that the functions use and that the two source files do not contain are
  parameters of the model: the table \<^verbatim>\<open>dlc_to_len\<close>, the two burst sizes, and what a call
  of \<^verbatim>\<open>can_send\<close> does to the number of free transmit slots.
\<close>

record board_decls =
  dlc_to_len :: "nat list"
  MAX_CAN_MSGS_PER_USB_BULK_TRANSFER :: nat
  MAX_CAN_MSGS_PER_SPI_BULK_TRANSFER :: nat
  can_send_slots :: "u8 list \<Rightarrow> nat \<Rightarrow> nat"

text \<open>\<^verbatim>\<open>dlc_to_len[i]\<close>: a read of the table, undefined outside it.\<close>

definition dlc_lookup :: "nat list \<Rightarrow> nat \<Rightarrow> nat option" where
  "dlc_lookup tbl i = (if i < length tbl then Some (tbl ! i) else None)"

section \<open>State\<close>

record asm_buffer =
  ptr :: nat
  tail_size :: nat
  data :: "u8 list"

datatype transport = USB | SPI

text \<open>
  The two static staging buffers, and what the file reaches through its collaborators:
  the receive queue \<^verbatim>\<open>can_rx_q\<close> (oldest packet first), the calls of \<^verbatim>\<open>can_send\<close> made so
  far with the three arguments passed (the packet, the bus number and the flag
  \<^verbatim>\<open>skip_tx_hook\<close>), the free slots of the transmit pool, and the resume signals given so
  far.
\<close>

record comms_state =
  can_read_buffer :: asm_buffer
  can_write_buffer :: asm_buffer
  can_rx_q :: "u8 list list"
  can_send_log :: "(u8 list \<times> nat \<times> bool) list"
  tx_slots_free :: nat
  resume_log :: "transport list"

text \<open>
  Modelled from the spec: \<^verbatim>\<open>can_pop\<close> is defined outside the two source files. It takes
  the oldest frame of the queue (\<^verbatim>\<open>pop_received_frame() -> Option<Frame>\<close>, FIFO pop
  order) and reports whether there was one.
\<close>

definition can_pop :: "u8 list list \<Rightarrow> (u8 list \<times> u8 list list) option" where
  "can_pop q = (case q of [] \<Rightarrow> None | p # q' \<Rightarrow> Some (p, q'))"

text \<open>
  Modelled from the spec: \<^verbatim>\<open>can_send\<close> is defined outside the two source files. It
  submits the frame to the transmit path (\<^verbatim>\<open>submit_for_transmission(Frame, bus)\<close>); the
  call is recorded, and the free slots of the pool change as \<open>can_send_slots\<close> says.
\<close>

definition can_send ::
  "board_decls \<Rightarrow> u8 list \<Rightarrow> nat \<Rightarrow> bool \<Rightarrow> comms_state \<Rightarrow> comms_state" where
  "can_send cfg to_push bus_number skip_tx_hook st =
     st\<lparr>can_send_log := can_send_log st @ [(to_push, bus_number, skip_tx_hook)],
        tx_slots_free := can_send_slots cfg to_push (tx_slots_free st)\<rparr>"

text \<open>
  Modelled from the spec: \<^verbatim>\<open>can_tx_check_min_slots_free\<close>, \<^verbatim>\<open>can_tx_comms_resume_usb\<close> and
  \<^verbatim>\<open>can_tx_comms_resume_spi\<close> are defined outside the two source files. The check tells
  whether the transmit slot pool has at least the given number of free slots; a resume
  call signals that transport.
\<close>

definition can_tx_check_min_slots_free :: "nat \<Rightarrow> comms_state \<Rightarrow> bool" where
  "can_tx_check_min_slots_free min_slots st \<longleftrightarrow> min_slots \<le> tx_slots_free st"

definition can_tx_comms_resume_usb :: "comms_state \<Rightarrow> comms_state" where
  "can_tx_comms_resume_usb st = st\<lparr>resume_log := resume_log st @ [USB]\<rparr>"

definition can_tx_comms_resume_spi :: "comms_state \<Rightarrow> comms_state" where
  "can_tx_comms_resume_spi st = st\<lparr>resume_log := resume_log st @ [SPI]\<rparr>"

section \<open>The functions of \<^verbatim>\<open>board/can_comms.h\<close>\<close>

text \<open>\<^verbatim>\<open>refresh_can_tx_slots_available\<close>, lines 137 to 144.\<close>

definition refresh_can_tx_slots_available :: "board_decls \<Rightarrow> comms_state \<Rightarrow> comms_state" where
  "refresh_can_tx_slots_available cfg st =
     (let st1 = (if can_tx_check_min_slots_free (MAX_CAN_MSGS_PER_USB_BULK_TRANSFER cfg) st
                 then can_tx_comms_resume_usb st else st)
      in if can_tx_check_min_slots_free (MAX_CAN_MSGS_PER_SPI_BULK_TRANSFER cfg) st1
         then can_tx_comms_resume_spi st1 else st1)"

text \<open>\<^verbatim>\<open>comms_can_reset\<close>, lines 129 to 134.\<close>

definition comms_can_reset :: "comms_state \<Rightarrow> comms_state" where
  "comms_can_reset st =
     st\<lparr>can_write_buffer := (can_write_buffer st)\<lparr>ptr := 0, tail_size := 0\<rparr>,
        can_read_buffer := (can_read_buffer st)\<lparr>ptr := 0, tail_size := 0\<rparr>\<rparr>"

text \<open>
  The loop of \<^verbatim>\<open>comms_can_write\<close>, lines 111 to 124. \<open>dat\<close> is the caller's array
  \<^verbatim>\<open>data[0..len)\<close>, so \<^verbatim>\<open>len\<close> is its length.
\<close>

partial_function (option) comms_can_write_loop ::
  "board_decls \<Rightarrow> u8 list \<Rightarrow> nat \<Rightarrow> comms_state \<Rightarrow> comms_state option" where
  "comms_can_write_loop cfg dat pos st =
     (if pos < length dat then do {
        code \<leftarrow> data_len_code_at dat pos;
        n \<leftarrow> dlc_lookup (dlc_to_len cfg) code;
        let pckt_len = u32_add CANPACKET_HEAD_SIZE n;
        if u32_add pos pckt_len \<le> length dat then do {
          to_push \<leftarrow> memcpy CANPacket_zero 0 dat pos pckt_len;
          comms_can_write_loop cfg dat (u32_add pos pckt_len)
            (can_send cfg to_push (bus to_push) False st)
        } else do {
          d \<leftarrow> memcpy (data (can_write_buffer st)) 0 dat pos (u32_sub (length dat) pos);
          let p = u32_sub (length dat) pos;
          comms_can_write_loop cfg dat (u32_add pos p)
            (st\<lparr>can_write_buffer := \<lparr>ptr = p, tail_size = u32_sub pckt_len p, data = d\<rparr>\<rparr>)
        }
      } else Some st)"

declare comms_can_write_loop.simps [code]

text \<open>\<^verbatim>\<open>comms_can_write\<close>, lines 81 to 127.\<close>

definition comms_can_write :: "board_decls \<Rightarrow> u8 list \<Rightarrow> comms_state \<Rightarrow> comms_state option" where
  "comms_can_write cfg dat st =
     (let len = length dat; pos = 0; wb = can_write_buffer st in do {
        (pos, st) \<leftarrow>
          (if ptr wb \<noteq> 0 then
             if tail_size wb \<le> u32_sub len pos then do {
               d \<leftarrow> memcpy (data wb) (ptr wb) dat pos (tail_size wb);
               let p = u32_add (ptr wb) (tail_size wb);
               to_push \<leftarrow> memcpy CANPacket_zero 0 d 0 p;
               Some (u32_add pos (tail_size wb),
                     (can_send cfg to_push (bus to_push) False st)
                       \<lparr>can_write_buffer := \<lparr>ptr = 0, tail_size = 0, data = d\<rparr>\<rparr>)
             } else do {
               let data_size = u32_sub len pos;
               d \<leftarrow> memcpy (data wb) (ptr wb) dat pos data_size;
               Some (u32_add pos data_size,
                     st\<lparr>can_write_buffer :=
                          \<lparr>ptr = u32_add (ptr wb) data_size,
                           tail_size = u32_sub (tail_size wb) data_size,
                           data = d\<rparr>\<rparr>)
             }
           else Some (pos, st));
        st \<leftarrow> comms_can_write_loop cfg dat pos st;
        Some (refresh_can_tx_slots_available cfg st)
      })"

text \<open>
  The loop of \<^verbatim>\<open>comms_can_read\<close>, lines 60 to 72. \<open>dat\<close> is the caller's array
  \<^verbatim>\<open>data[0..max_len)\<close> with the bytes written so far; \<^verbatim>\<open>can_pop\<close> is called only when
  \<^verbatim>\<open>pos < max_len\<close>.
\<close>

partial_function (option) comms_can_read_loop ::
  "board_decls \<Rightarrow> nat \<Rightarrow> u8 list \<Rightarrow> comms_state \<Rightarrow> (nat \<times> u8 list \<times> comms_state) option" where
  "comms_can_read_loop cfg pos dat st =
     (if pos < length dat then
        (case can_pop (can_rx_q st) of
           None \<Rightarrow> Some (pos, dat, st)
         | Some (can_packet, q) \<Rightarrow> do {
             code \<leftarrow> data_len_code_at can_packet 0;
             n \<leftarrow> dlc_lookup (dlc_to_len cfg) code;
             let pckt_len = u32_add CANPACKET_HEAD_SIZE n;
             if u32_add pos pckt_len \<le> length dat then do {
               dat \<leftarrow> memcpy dat pos can_packet 0 pckt_len;
               comms_can_read_loop cfg (u32_add pos pckt_len) dat (st\<lparr>can_rx_q := q\<rparr>)
             } else do {
               let room = u32_sub (length dat) pos;
               let rb = can_read_buffer st;
               dat \<leftarrow> memcpy dat pos can_packet 0 room;
               let p = u32_add (ptr rb) (u32_sub pckt_len room);
               d \<leftarrow> memcpy (data rb) 0 can_packet room p;
               comms_can_read_loop cfg (length dat) dat
                 (st\<lparr>can_rx_q := q, can_read_buffer := rb\<lparr>ptr := p, data := d\<rparr>\<rparr>)
             }
           })
      else Some (pos, dat, st))"

declare comms_can_read_loop.simps [code]

text \<open>
  \<^verbatim>\<open>comms_can_read\<close>, lines 45 to 76. The result is the \<^verbatim>\<open>int\<close> returned, the caller's
  array after the call, and the state.
\<close>

definition comms_can_read ::
  "board_decls \<Rightarrow> u8 list \<Rightarrow> comms_state \<Rightarrow> (int \<times> u8 list \<times> comms_state) option" where
  "comms_can_read cfg dat st =
     (let max_len = length dat; pos = 0; rb = can_read_buffer st in do {
        (pos, dat, st) \<leftarrow>
          (if ptr rb > 0 then do {
             let overflow_len = min (u32_sub max_len pos) (ptr rb);
             dat \<leftarrow> memcpy dat pos (data rb) 0 overflow_len;
             d \<leftarrow> memcpy (data rb) 0 (data rb) overflow_len (u32_sub (ptr rb) overflow_len);
             Some (u32_add pos overflow_len, dat,
                   st\<lparr>can_read_buffer := rb\<lparr>ptr := u32_sub (ptr rb) overflow_len, data := d\<rparr>\<rparr>)
           } else Some (pos, dat, st));
        (pos, dat, st) \<leftarrow>
          (if ptr (can_read_buffer st) = 0 then comms_can_read_loop cfg pos dat st
           else Some (pos, dat, st));
        Some (int_of_u32 pos, dat, st)
      })"

section \<open>Notions used to state the properties\<close>

text \<open>
  The declarations are well formed when the table has one entry for each of the sixteen
  4-bit codes and no payload is longer than 64 bytes, so that a frame has at most 70
  bytes.
\<close>

definition cfg_ok :: "board_decls \<Rightarrow> bool" where
  "cfg_ok cfg \<longleftrightarrow> length (dlc_to_len cfg) = 16 \<and> (\<forall>n \<in> set (dlc_to_len cfg). n \<le> 64)"

text \<open>The length on the wire of the frame whose first byte is \<open>b\<close>.\<close>

definition pckt_len_of :: "board_decls \<Rightarrow> u8 \<Rightarrow> nat" where
  "pckt_len_of cfg b = CANPACKET_HEAD_SIZE + dlc_to_len cfg ! unat (drop_bit 4 b)"

text \<open>
  A byte stream cut into frames from its start, each as long as its first byte says: the
  complete frames, and the bytes left over that do not yet make a frame.
\<close>

function split_frames :: "board_decls \<Rightarrow> u8 list \<Rightarrow> u8 list list \<times> u8 list" where
  "split_frames cfg s =
     (if s = [] then ([], [])
      else if pckt_len_of cfg (hd s) \<le> length s
        then (case split_frames cfg (drop (pckt_len_of cfg (hd s)) s) of
                (fs, r) \<Rightarrow> (take (pckt_len_of cfg (hd s)) s # fs, r))
        else ([], s))"
  by pat_completeness auto
termination
  by (relation "measure (\<lambda>(cfg, s). length s)")
     (auto simp: pckt_len_of_def CANPACKET_HEAD_SIZE_def)

declare split_frames.simps [simp del]

text \<open>A frame as a byte string: not empty, and as long as its first byte says.\<close>

definition frame_ok :: "board_decls \<Rightarrow> u8 list \<Rightarrow> bool" where
  "frame_ok cfg f \<longleftrightarrow> f \<noteq> [] \<and> length f = pckt_len_of cfg (hd f)"

text \<open>
  The packet object that holds the frame \<open>f\<close>: its bytes, then the zeros of
  \<^verbatim>\<open>to_push = {0}\<close>; and the call of \<^verbatim>\<open>can_send\<close> that submits it, with the bus number
  read from the packet.
\<close>

definition to_packet :: "u8 list \<Rightarrow> u8 list" where
  "to_packet f = f @ replicate (CANPACKET_SIZE - length f) 0"

definition sent_as :: "u8 list \<Rightarrow> u8 list \<times> nat \<times> bool" where
  "sent_as f = (to_packet f, bus (to_packet f), False)"

text \<open>The bytes a packet of the receive queue puts on the wire.\<close>

definition wire :: "board_decls \<Rightarrow> u8 list \<Rightarrow> u8 list" where
  "wire cfg p = take (pckt_len_of cfg (hd p)) p"

text \<open>The valid bytes of a staging buffer: the first \<^verbatim>\<open>ptr\<close> bytes of its array.\<close>

definition pending :: "asm_buffer \<Rightarrow> u8 list" where
  "pending b = take (ptr b) (data b)"

text \<open>
  The write-side invariant: the array has its 72 bytes, and a buffer that holds bytes
  still misses at least one byte of a frame whose length its first byte gives.
\<close>

definition write_inv :: "board_decls \<Rightarrow> comms_state \<Rightarrow> bool" where
  "write_inv cfg st \<longleftrightarrow>
     length (data (can_write_buffer st)) = 72 \<and>
     (ptr (can_write_buffer st) \<noteq> 0 \<longrightarrow>
        1 \<le> tail_size (can_write_buffer st) \<and>
        ptr (can_write_buffer st) + tail_size (can_write_buffer st) =
          pckt_len_of cfg (data (can_write_buffer st) ! 0))"

text \<open>
  The read-side invariant: the array has its 72 bytes, \<^verbatim>\<open>ptr\<close> lies within it, and every
  packet of the queue is a whole packet object.
\<close>

definition read_inv :: "comms_state \<Rightarrow> bool" where
  "read_inv st \<longleftrightarrow>
     length (data (can_read_buffer st)) = 72 \<and>
     ptr (can_read_buffer st) \<le> 72 \<and>
     (\<forall>p \<in> set (can_rx_q st). length p = CANPACKET_SIZE)"

text \<open>The signals one admission check gives when the pool has \<open>free\<close> free slots.\<close>

definition resume_signals :: "board_decls \<Rightarrow> nat \<Rightarrow> transport list" where
  "resume_signals cfg free =
     (if MAX_CAN_MSGS_PER_USB_BULK_TRANSFER cfg \<le> free then [USB] else []) @
     (if MAX_CAN_MSGS_PER_SPI_BULK_TRANSFER cfg \<le> free then [SPI] else [])"

text \<open>
  What the write loop leaves, given the frames and the rest of the input it ran over.
\<close>

definition loop_post ::
  "board_decls \<Rightarrow> comms_state \<Rightarrow> comms_state \<Rightarrow> u8 list list \<times> u8 list \<Rightarrow> bool" where
  "loop_post cfg st st' fr \<longleftrightarrow>
     can_send_log st' = can_send_log st @ map sent_as (fst fr) \<and>
     can_read_buffer st' = can_read_buffer st \<and>
     can_rx_q st' = can_rx_q st \<and>
     resume_log st' = resume_log st \<and>
     (if snd fr = [] then can_write_buffer st' = can_write_buffer st
      else ptr (can_write_buffer st') = length (snd fr) \<and>
           tail_size (can_write_buffer st') = pckt_len_of cfg (hd (snd fr)) - length (snd fr) \<and>
           data (can_write_buffer st') =
             snd fr @ drop (length (snd fr)) (data (can_write_buffer st)))"

text \<open>What a whole call of \<^verbatim>\<open>comms_can_write\<close> leaves.\<close>

definition write_post ::
  "board_decls \<Rightarrow> comms_state \<Rightarrow> comms_state \<Rightarrow> u8 list list \<times> u8 list \<Rightarrow> bool" where
  "write_post cfg st st' fr \<longleftrightarrow>
     can_send_log st' = can_send_log st @ map sent_as (fst fr) \<and>
     can_read_buffer st' = can_read_buffer st \<and>
     can_rx_q st' = can_rx_q st \<and>
     resume_log st' = resume_log st @ resume_signals cfg (tx_slots_free st') \<and>
     ptr (can_write_buffer st') = length (snd fr) \<and>
     pending (can_write_buffer st') = snd fr \<and>
     write_inv cfg st'"

text \<open>Successive calls of \<^verbatim>\<open>comms_can_write\<close>, one for each chunk.\<close>

fun write_all :: "board_decls \<Rightarrow> u8 list list \<Rightarrow> comms_state \<Rightarrow> comms_state option" where
  "write_all cfg [] st = Some st"
| "write_all cfg (c # cs) st =
     (case comms_can_write cfg c st of None \<Rightarrow> None | Some st' \<Rightarrow> write_all cfg cs st')"

text \<open>
  Filling \<open>room\<close> bytes from the packets of a queue: the bytes written, the bytes of the
  last packet that did not fit, and the packets left in the queue.
\<close>

fun read_fill :: "board_decls \<Rightarrow> nat \<Rightarrow> u8 list list \<Rightarrow> u8 list \<times> u8 list \<times> u8 list list" where
  "read_fill cfg room [] = ([], [], [])"
| "read_fill cfg room (p # q) =
     (if room = 0 then ([], [], p # q)
      else if length (wire cfg p) \<le> room
        then (case read_fill cfg (room - length (wire cfg p)) q of
                (out, sfx, q') \<Rightarrow> (wire cfg p @ out, sfx, q'))
        else (take room (wire cfg p), drop room (wire cfg p), q))"

text \<open>What the read loop leaves, given the result of \<open>read_fill\<close>.\<close>

definition read_loop_post ::
  "comms_state \<Rightarrow> comms_state \<Rightarrow> u8 list \<times> u8 list \<times> u8 list list \<Rightarrow> bool" where
  "read_loop_post st st' res \<longleftrightarrow>
     can_rx_q st' = snd (snd res) \<and>
     ptr (can_read_buffer st') = length (fst (snd res)) \<and>
     take (length (fst (snd res))) (data (can_read_buffer st')) = fst (snd res) \<and>
     length (data (can_read_buffer st')) = 72 \<and>
     tail_size (can_read_buffer st') = tail_size (can_read_buffer st) \<and>
     can_write_buffer st' = can_write_buffer st \<and>
     can_send_log st' = can_send_log st \<and>
     tx_slots_free st' = tx_slots_free st \<and>
     resume_log st' = resume_log st"

text \<open>
  The bytes still owed to the host: the tail kept in the read buffer, then the packets of
  the queue in pop order.
\<close>

definition rx_stream :: "board_decls \<Rightarrow> comms_state \<Rightarrow> u8 list" where
  "rx_stream cfg st = pending (can_read_buffer st) @ concat (map (wire cfg) (can_rx_q st))"

text \<open>
  Successive calls of \<^verbatim>\<open>comms_can_read\<close>, one for each destination array (its length is the
  capacity of the call): the bytes returned, call after call, and the last state.
\<close>

fun read_all ::
  "board_decls \<Rightarrow> u8 list list \<Rightarrow> comms_state \<Rightarrow> (u8 list \<times> comms_state) option" where
  "read_all cfg [] st = Some ([], st)"
| "read_all cfg (buf # bufs) st =
     (case comms_can_read cfg buf st of
        None \<Rightarrow> None
      | Some (n, dat, st1) \<Rightarrow>
          (case read_all cfg bufs st1 of
             None \<Rightarrow> None
           | Some (out, st2) \<Rightarrow> Some (take (nat n) dat @ out, st2)))"

text \<open>
  What can happen to the state: the three entry points, called by the transport, and the
  two interrupt paths, which add a received packet to the queue and change the number of
  free transmit slots. The arguments of a call are well formed when the length of a write
  leaves the \<^verbatim>\<open>uint32_t\<close> arithmetic room for one more packet and the capacity of a read
  is a value of \<^verbatim>\<open>int\<close>, the type in which the count comes back; a received packet is a
  whole packet object.
\<close>

datatype event = Reset | Write "u8 list" | Read "u8 list" | Rx "u8 list" | Tx nat

fun step :: "board_decls \<Rightarrow> event \<Rightarrow> comms_state \<Rightarrow> comms_state option" where
  "step cfg Reset st = Some (comms_can_reset st)"
| "step cfg (Write dat) st = comms_can_write cfg dat st"
| "step cfg (Read dat) st = map_option (\<lambda>(n, dat', st'). st') (comms_can_read cfg dat st)"
| "step cfg (Rx p) st = Some (st\<lparr>can_rx_q := can_rx_q st @ [p]\<rparr>)"
| "step cfg (Tx free) st = Some (st\<lparr>tx_slots_free := free\<rparr>)"

fun run :: "board_decls \<Rightarrow> event list \<Rightarrow> comms_state \<Rightarrow> comms_state option" where
  "run cfg [] st = Some st"
| "run cfg (e # es) st = (case step cfg e st of None \<Rightarrow> None | Some st' \<Rightarrow> run cfg es st')"

fun event_ok :: "event \<Rightarrow> bool" where
  "event_ok Reset = True"
| "event_ok (Write dat) = (length dat + 72 \<le> 2 ^ 32)"
| "event_ok (Read dat) = (length dat < 2 ^ 31)"
| "event_ok (Rx p) = (length p = CANPACKET_SIZE)"
| "event_ok (Tx free) = True"

text \<open>
  The state at start-up: the static initialisers of the two buffers (\<^verbatim>\<open>ptr\<close> and
  \<^verbatim>\<open>tail_size\<close> zero, the arrays zero as static storage is), nothing received, sent or
  signalled.
\<close>

definition comms_init :: comms_state where
  "comms_init =
     \<lparr>can_read_buffer = \<lparr>ptr = 0, tail_size = 0, data = replicate 72 0\<rparr>,
      can_write_buffer = \<lparr>ptr = 0, tail_size = 0, data = replicate 72 0\<rparr>,
      can_rx_q = [], can_send_log = [], tx_slots_free = 0, resume_log = []\<rparr>"

text \<open>
  An instance of the declarations, for concrete runs: the sixteen payload lengths of
  CAN FD, one for each 4-bit code.
\<close>

definition fd_decls :: board_decls where
  "fd_decls =
     \<lparr>dlc_to_len = [0, 1, 2, 3, 4, 5, 6, 7, 8, 12, 16, 20, 24, 32, 48, 64],
      MAX_CAN_MSGS_PER_USB_BULK_TRANSFER = 51,
      MAX_CAN_MSGS_PER_SPI_BULK_TRANSFER = 170,
      can_send_slots = (\<lambda>p n. n - 1)\<rparr>"

section \<open>Auxiliary facts\<close>

text \<open>The definitions to unfold when a call is evaluated on concrete bytes.\<close>

lemmas eval_defs = comms_can_write_def comms_can_read_def comms_can_write_loop.simps
  comms_can_read_loop.simps memcpy_def u32_add_def u32_sub_def int_of_u32_def data_len_code_at_def
  dlc_lookup_def CANPACKET_HEAD_SIZE_def CANPACKET_SIZE_def CANPacket_zero_def
  can_send_def bus_def can_pop_def refresh_can_tx_slots_available_def
  can_tx_check_min_slots_free_def can_tx_comms_resume_usb_def can_tx_comms_resume_spi_def
  comms_can_reset_def comms_init_def fd_decls_def Let_def

subsection \<open>Arithmetic, the table and copies\<close>

lemma u32_add_id: "a + b < 2 ^ 32 \<Longrightarrow> u32_add a b = a + b"
  by (simp add: u32_add_def)

lemma sub_mod_wrap:
  fixes a b m :: nat
  assumes "b \<le> a" and "a < m"
  shows "(a + m - b mod m) mod m = a - b"
proof -
  have "b mod m = b" using assms by simp
  moreover have "a + m - b = (a - b) + m" using assms by linarith
  moreover have "((a - b) + m) mod m = (a - b) mod m" by (rule mod_add_self2)
  moreover have "(a - b) mod m = a - b" using assms by (intro mod_less) linarith
  ultimately show ?thesis by (simp only:)
qed

lemma u32_sub_id: "b \<le> a \<Longrightarrow> a < 2 ^ 32 \<Longrightarrow> u32_sub a b = a - b"
  unfolding u32_sub_def by (rule sub_mod_wrap)

lemma int_of_u32_id: "a < 2 ^ 31 \<Longrightarrow> int_of_u32 a = int a"
  by (simp add: int_of_u32_def)

lemma code_lt_16: "unat (drop_bit 4 (b :: u8)) < 16"
proof -
  have "unat b < 256" using unsigned_less [of b, where 'a = nat] by simp
  then have "unat b div 16 < 16" by simp
  moreover have "unat (drop_bit 4 b) = drop_bit 4 (unat b)" by (rule unat_drop_bit_eq)
  moreover have "drop_bit 4 (unat b) = unat b div 16" by (simp add: drop_bit_eq_div)
  ultimately show ?thesis by simp
qed

lemma dlc_lookup_ok:
  "cfg_ok cfg \<Longrightarrow> dlc_lookup (dlc_to_len cfg) (unat (drop_bit 4 (b :: u8))) = Some (dlc_to_len cfg ! unat (drop_bit 4 b))"
  using code_lt_16 [of b] by (simp add: dlc_lookup_def cfg_ok_def)

lemma pckt_len_bounds:
  assumes "cfg_ok cfg"
  shows "6 \<le> pckt_len_of cfg b" and "pckt_len_of cfg b \<le> 70"
proof -
  have "unat (drop_bit 4 b) < length (dlc_to_len cfg)"
    using assms code_lt_16 [of b] by (simp add: cfg_ok_def)
  then have "dlc_to_len cfg ! unat (drop_bit 4 b) \<in> set (dlc_to_len cfg)" by simp
  then have "dlc_to_len cfg ! unat (drop_bit 4 b) \<le> 64"
    using assms by (simp add: cfg_ok_def)
  then show "pckt_len_of cfg b \<le> 70" by (simp add: pckt_len_of_def CANPACKET_HEAD_SIZE_def)
  show "6 \<le> pckt_len_of cfg b" by (simp add: pckt_len_of_def CANPACKET_HEAD_SIZE_def)
qed

lemma memcpy_in_bounds:
  "memcpy dst d src s n = Some r \<Longrightarrow>
   d + n \<le> length dst \<and> s + n \<le> length src \<and> length r = length dst"
  by (auto simp: memcpy_def split: if_splits)

lemma memcpy_Some:
  "d + n \<le> length dst \<Longrightarrow> s + n \<le> length src \<Longrightarrow>
   memcpy dst d src s n = Some (take d dst @ take n (drop s src) @ drop (d + n) dst)"
  by (simp add: memcpy_def)

lemma memcpy_to_packet:
  "n \<le> CANPACKET_SIZE \<Longrightarrow> s + n \<le> length src \<Longrightarrow>
   memcpy CANPacket_zero 0 src s n = Some (to_packet (take n (drop s src)))"
  by (simp add: memcpy_def CANPacket_zero_def to_packet_def min_absorb2)

subsection \<open>The write side\<close>

text \<open>
  The loop sends the complete frames of the bytes from \<open>pos\<close> on and keeps the rest; a
  whole call does so for the buffered bytes followed by the input.
\<close>

lemma split_frames_Nil: "split_frames cfg [] = ([], [])"
  by (simp add: split_frames.simps)

lemma split_frames_fit:
  "s \<noteq> [] \<Longrightarrow> pckt_len_of cfg (hd s) \<le> length s \<Longrightarrow>
   split_frames cfg s =
     (take (pckt_len_of cfg (hd s)) s # fst (split_frames cfg (drop (pckt_len_of cfg (hd s)) s)),
      snd (split_frames cfg (drop (pckt_len_of cfg (hd s)) s)))"
  by (subst split_frames.simps) (simp add: case_prod_beta)

lemma split_frames_short:
  "s \<noteq> [] \<Longrightarrow> \<not> pckt_len_of cfg (hd s) \<le> length s \<Longrightarrow> split_frames cfg s = ([], s)"
  by (subst split_frames.simps) simp

lemma write_loop_done:
  "\<not> pos < length dat \<Longrightarrow> comms_can_write_loop cfg dat pos st = Some st"
  by (subst comms_can_write_loop.simps) simp

lemma write_loop_spec:
  assumes cfg: "cfg_ok cfg" and len: "length dat + 72 \<le> 2 ^ 32"
  shows "pos \<le> length dat \<Longrightarrow> length (data (can_write_buffer st)) = 72 \<Longrightarrow>
         \<exists>st'. comms_can_write_loop cfg dat pos st = Some st' \<and>
               loop_post cfg st st' (split_frames cfg (drop pos dat))"
proof (induction "length dat - pos" arbitrary: pos st rule: less_induct)
  case less
  show ?case
  proof (cases "pos < length dat")
    case False
    with less.prems have "drop pos dat = []" by simp
    moreover have "comms_can_write_loop cfg dat pos st = Some st"
      using False by (rule write_loop_done)
    ultimately show ?thesis by (simp add: split_frames_Nil loop_post_def)
  next
    case True
    define b where "b = dat ! pos"
    define n where "n = pckt_len_of cfg b"
    have hd: "hd (drop pos dat) = b" and ne: "drop pos dat \<noteq> []"
      using True by (simp_all add: b_def hd_drop_conv_nth)
    have code: "data_len_code_at dat pos = Some (unat (drop_bit 4 b))"
      using True by (simp add: data_len_code_at_def b_def)
    have look: "dlc_lookup (dlc_to_len cfg) (unat (drop_bit 4 b)) =
                Some (dlc_to_len cfg ! unat (drop_bit 4 b))"
      using cfg by (rule dlc_lookup_ok)
    have nb: "6 \<le> n" "n \<le> 70"
      using pckt_len_bounds [OF cfg, of b] by (simp_all add: n_def)
    have len': "length dat + 72 \<le> 4294967296" using len by simp
    have pl: "u32_add CANPACKET_HEAD_SIZE (dlc_to_len cfg ! unat (drop_bit 4 b)) = n"
      using nb(2) unfolding n_def pckt_len_of_def by (intro u32_add_id) simp
    have add: "u32_add pos n = pos + n"
      using True nb(2) len' by (intro u32_add_id) simp
    show ?thesis
    proof (cases "pos + n \<le> length dat")
      case fit: True
      define f where "f = take n (drop pos dat)"
      define st1 where "st1 = can_send cfg (to_packet f) (bus (to_packet f)) False st"
      have mc: "memcpy CANPacket_zero 0 dat pos n = Some (to_packet f)"
        unfolding f_def using nb(2) fit by (intro memcpy_to_packet) (simp_all add: CANPACKET_SIZE_def)
      have step: "comms_can_write_loop cfg dat pos st = comms_can_write_loop cfg dat (pos + n) st1"
        by (subst comms_can_write_loop.simps)
           (simp add: True code look pl add fit mc st1_def)
      have "length dat - (pos + n) < length dat - pos" using True nb(1) by simp
      moreover have "pos + n \<le> length dat" by (rule fit)
      moreover have "length (data (can_write_buffer st1)) = 72"
        using less.prems(2) by (simp add: st1_def can_send_def)
      ultimately obtain st' where
        run: "comms_can_write_loop cfg dat (pos + n) st1 = Some st'" and
        post: "loop_post cfg st1 st' (split_frames cfg (drop (pos + n) dat))"
        using less.hyps by blast
      have sp: "split_frames cfg (drop pos dat) =
                  (f # fst (split_frames cfg (drop (pos + n) dat)),
                   snd (split_frames cfg (drop (pos + n) dat)))"
        using split_frames_fit [OF ne, of cfg] fit
        by (simp add: hd n_def [symmetric] f_def add.commute)
      have "loop_post cfg st st' (split_frames cfg (drop pos dat))"
        using post unfolding sp loop_post_def
        by (simp add: st1_def can_send_def sent_as_def)
      with step run show ?thesis by simp
    next
      case short: False
      define p where "p = length dat - pos"
      have p: "0 < p" "p < n" using True short by (simp_all add: p_def)
      have sub: "u32_sub (length dat) pos = p"
        unfolding p_def using True len' by (intro u32_sub_id) simp_all
      have sub2: "u32_sub n p = n - p"
        using p nb(2) by (intro u32_sub_id) simp_all
      have add2: "u32_add pos p = length dat"
        using True len' by (simp add: p_def u32_add_id)
      define d where "d = drop pos dat @ drop p (data (can_write_buffer st))"
      define st2 where
        "st2 = st\<lparr>can_write_buffer := \<lparr>ptr = p, tail_size = n - p, data = d\<rparr>\<rparr>"
      have mc: "memcpy (data (can_write_buffer st)) 0 dat pos p = Some d"
        using p nb(2) less.prems(2) True
        by (simp add: memcpy_def d_def p_def)
      have step: "comms_can_write_loop cfg dat pos st = comms_can_write_loop cfg dat (length dat) st2"
        by (subst comms_can_write_loop.simps)
           (simp add: True code look pl add short sub sub2 add2 mc st2_def)
      have fin: "comms_can_write_loop cfg dat (length dat) st2 = Some st2"
        by (rule write_loop_done) simp
      have sp: "split_frames cfg (drop pos dat) = ([], drop pos dat)"
        using split_frames_short [OF ne, of cfg] short True
        by (simp add: hd n_def [symmetric])
      have "loop_post cfg st st2 (split_frames cfg (drop pos dat))"
        unfolding sp loop_post_def using ne True
        by (simp add: st2_def hd n_def d_def p_def)
      with step fin show ?thesis by simp
    qed
  qed
qed

lemma refresh_fields:
  "can_send_log (refresh_can_tx_slots_available cfg st) = can_send_log st"
  "can_read_buffer (refresh_can_tx_slots_available cfg st) = can_read_buffer st"
  "can_write_buffer (refresh_can_tx_slots_available cfg st) = can_write_buffer st"
  "can_rx_q (refresh_can_tx_slots_available cfg st) = can_rx_q st"
  "tx_slots_free (refresh_can_tx_slots_available cfg st) = tx_slots_free st"
  "resume_log (refresh_can_tx_slots_available cfg st) =
     resume_log st @ resume_signals cfg (tx_slots_free st)"
  by (simp_all add: refresh_can_tx_slots_available_def can_tx_check_min_slots_free_def
      can_tx_comms_resume_usb_def can_tx_comms_resume_spi_def resume_signals_def Let_def)

lemma split_frames_rest_short:
  "snd (split_frames cfg s) \<noteq> [] \<Longrightarrow>
   length (snd (split_frames cfg s)) < pckt_len_of cfg (hd (snd (split_frames cfg s)))"
proof (induction cfg s rule: split_frames.induct)
  case (1 cfg s)
  show ?case
  proof (cases "s = []")
    case True
    with "1.prems" show ?thesis by (simp add: split_frames_Nil)
  next
    case ne: False
    show ?thesis
    proof (cases "pckt_len_of cfg (hd s) \<le> length s")
      case True
      with ne "1.IH" "1.prems" show ?thesis by (simp add: split_frames_fit)
    next
      case False
      with ne show ?thesis by (simp add: split_frames_short)
    qed
  qed
qed

lemma write_finish:
  assumes cfg: "cfg_ok cfg"
    and post: "loop_post cfg st1 st2 (split_frames cfg s)"
    and empty: "ptr (can_write_buffer st1) = 0"
    and size: "length (data (can_write_buffer st1)) = 72"
  shows "ptr (can_write_buffer st2) = length (snd (split_frames cfg s))"
    and "pending (can_write_buffer st2) = snd (split_frames cfg s)"
    and "write_inv cfg st2"
proof -
  define r where "r = snd (split_frames cfg s)"
  show "ptr (can_write_buffer st2) = length (snd (split_frames cfg s))"
    using post empty by (simp add: loop_post_def split: if_splits)
  show "pending (can_write_buffer st2) = snd (split_frames cfg s)"
    using post empty by (simp add: loop_post_def pending_def split: if_splits)
  show "write_inv cfg st2"
  proof (cases "r = []")
    case True
    then show ?thesis using post empty size by (simp add: loop_post_def write_inv_def r_def)
  next
    case False
    then have short: "length r < pckt_len_of cfg (hd r)"
      unfolding r_def by (rule split_frames_rest_short)
    moreover have "pckt_len_of cfg (hd r) \<le> 70" using cfg by (rule pckt_len_bounds)
    moreover have "(r @ drop (length r) (data (can_write_buffer st1))) ! 0 = hd r"
      using False by (cases r) simp_all
    ultimately show ?thesis
      using False post size unfolding r_def [symmetric] loop_post_def write_inv_def
      by (simp add: r_def [symmetric])
  qed
qed

lemma write_spec:
  assumes cfg: "cfg_ok cfg" and len: "length dat + 72 \<le> 2 ^ 32"
    and inv: "write_inv cfg st"
  shows "\<exists>st'. comms_can_write cfg dat st = Some st' \<and>
           write_post cfg st st' (split_frames cfg (pending (can_write_buffer st) @ dat))"
proof -
  define wb where "wb = can_write_buffer st"
  have size: "length (data wb) = 72" using inv by (simp add: write_inv_def wb_def)
  have len': "length dat + 72 \<le> 4294967296" using len by simp
  have sub0: "u32_sub (length dat) 0 = length dat"
    using len' by (intro u32_sub_id [where b = 0 and a = "length dat", simplified]) simp
  show ?thesis
  proof (cases "ptr wb = 0")
    case True
    then have pend: "pending (can_write_buffer st) = []" by (simp add: pending_def wb_def)
    obtain st2 where
      run: "comms_can_write_loop cfg dat 0 st = Some st2" and
      post: "loop_post cfg st st2 (split_frames cfg dat)"
      using write_loop_spec [OF cfg len, of 0 st] size by (auto simp: wb_def)
    have w: "comms_can_write cfg dat st = Some (refresh_can_tx_slots_available cfg st2)"
      using True run by (simp add: comms_can_write_def Let_def wb_def [symmetric])
    have "write_post cfg st (refresh_can_tx_slots_available cfg st2) (split_frames cfg dat)"
      using write_finish [OF cfg post] True size post
      by (simp add: write_post_def refresh_fields wb_def loop_post_def write_inv_def pending_def)
    with w pend show ?thesis by simp
  next
    case False
    define pend where "pend = pending wb"
    define total where "total = pckt_len_of cfg (data wb ! 0)"
    have tail: "1 \<le> tail_size wb" and sum: "ptr wb + tail_size wb = total"
      using inv False by (simp_all add: write_inv_def wb_def total_def)
    have tl_eq: "total - ptr wb = tail_size wb" and ple: "ptr wb \<le> total"
      using sum by simp_all
    have tot: "total \<le> 70" unfolding total_def using cfg by (rule pckt_len_bounds)
    have lp: "length pend = ptr wb" using sum tot size by (simp add: pend_def pending_def)
    have pne: "pend \<noteq> []" using False lp by auto
    have hdp: "hd (pend @ dat) = data wb ! 0"
    proof -
      have "data wb \<noteq> []" using size by auto
      then have "hd (data wb) = data wb ! 0" by (rule hd_conv_nth)
      moreover have "hd pend = hd (data wb)" using False by (simp add: pend_def pending_def)
      moreover have "hd (pend @ dat) = hd pend" using pne by simp
      ultimately show ?thesis by simp
    qed
    have ne: "pend @ dat \<noteq> []" using pne by simp
    show ?thesis
    proof (cases "tail_size wb \<le> length dat")
      case fit: True
      define d where "d = take (ptr wb) (data wb) @ take (tail_size wb) dat @
                           drop (ptr wb + tail_size wb) (data wb)"
      define f where "f = pend @ take (tail_size wb) dat"
      define st1 where "st1 = (can_send cfg (to_packet f) (bus (to_packet f)) False st)
                                \<lparr>can_write_buffer := \<lparr>ptr = 0, tail_size = 0, data = d\<rparr>\<rparr>"
      have mc1: "memcpy (data wb) (ptr wb) dat 0 (tail_size wb) = Some d"
        using fit sum tot size by (simp add: memcpy_def d_def)
      have addp: "u32_add (ptr wb) (tail_size wb) = total"
        using sum tot by (simp add: u32_add_id)
      have add0: "u32_add 0 (tail_size wb) = tail_size wb"
        using sum tot by (simp add: u32_add_id)
      have ld: "length d = 72" using fit sum tot size by (simp add: d_def)
      have bnd: "ptr wb + tail_size wb \<le> 70" using sum tot by simp
      have td: "take total d = f"
        unfolding sum [symmetric] using fit size bnd
        by (simp add: d_def f_def pend_def pending_def)
      have mc2: "memcpy CANPacket_zero 0 d 0 total = Some (to_packet f)"
        using memcpy_to_packet [of total 0 d] tot ld td by (simp add: CANPACKET_SIZE_def)
      obtain st2 where
        run: "comms_can_write_loop cfg dat (tail_size wb) st1 = Some st2" and
        post: "loop_post cfg st1 st2 (split_frames cfg (drop (tail_size wb) dat))"
        using write_loop_spec [OF cfg len, of "tail_size wb" st1] fit ld
        by (auto simp: st1_def)
      have w: "comms_can_write cfg dat st = Some (refresh_can_tx_slots_available cfg st2)"
        using False fit run
        by (simp add: comms_can_write_def Let_def wb_def [symmetric] sub0 mc1 addp add0 mc2 st1_def)
      have lf: "length f = total" using fit sum lp by (simp add: f_def)
      have sp: "split_frames cfg (pend @ dat) =
                  (f # fst (split_frames cfg (drop (tail_size wb) dat)),
                   snd (split_frames cfg (drop (tail_size wb) dat)))"
      proof -
        have "pckt_len_of cfg (hd (pend @ dat)) = total" by (simp add: hdp total_def)
        moreover have "total \<le> length (pend @ dat)" using fit sum lp by simp
        moreover have "take total (pend @ dat) = f" using lp ple by (simp add: f_def tl_eq)
        moreover have "drop total (pend @ dat) = drop (tail_size wb) dat"
          using lp ple by (simp add: tl_eq)
        ultimately show ?thesis using split_frames_fit [OF ne, of cfg] by simp
      qed
      have st1: "ptr (can_write_buffer st1) = 0" "length (data (can_write_buffer st1)) = 72"
        using ld by (simp_all add: st1_def)
      have "write_post cfg st (refresh_can_tx_slots_available cfg st2)
              (split_frames cfg (pend @ dat))"
        using write_finish [OF cfg post st1] post unfolding sp
        by (simp add: write_post_def refresh_fields loop_post_def write_inv_def pending_def
            st1_def can_send_def sent_as_def)
      with w show ?thesis by (simp add: pend_def wb_def)
    next
      case short: False
      define d where "d = take (ptr wb) (data wb) @ dat @ drop (ptr wb + length dat) (data wb)"
      define st1 where "st1 = st\<lparr>can_write_buffer :=
                                   \<lparr>ptr = ptr wb + length dat,
                                    tail_size = tail_size wb - length dat, data = d\<rparr>\<rparr>"
      have mc1: "memcpy (data wb) (ptr wb) dat 0 (length dat) = Some d"
        using short sum tot size by (simp add: memcpy_def d_def)
      have addp: "u32_add (ptr wb) (length dat) = ptr wb + length dat"
        using short sum tot by (intro u32_add_id) simp
      have add0: "u32_add 0 (length dat) = length dat"
        using short sum tot by (simp add: u32_add_id)
      have subt: "u32_sub (tail_size wb) (length dat) = tail_size wb - length dat"
        using short sum tot by (intro u32_sub_id) simp_all
      have fin: "comms_can_write_loop cfg dat (length dat) st1 = Some st1"
        by (rule write_loop_done) simp
      have w: "comms_can_write cfg dat st = Some (refresh_can_tx_slots_available cfg st1)"
        using False short fin
        by (simp add: comms_can_write_def Let_def wb_def [symmetric] sub0 mc1 addp add0 subt st1_def)
      have sp: "split_frames cfg (pend @ dat) = ([], pend @ dat)"
      proof -
        have "pckt_len_of cfg (hd (pend @ dat)) = total" by (simp add: hdp total_def)
        moreover have "\<not> total \<le> length (pend @ dat)" using short sum lp by simp
        ultimately show ?thesis using split_frames_short [OF ne, of cfg] by simp
      qed
      have ld: "length d = 72" using short sum tot size by (simp add: d_def)
      have d0: "d ! 0 = data wb ! 0"
        using False sum tot size by (simp add: d_def nth_append)
      have tl1: "Suc 0 \<le> tail_size wb - length dat" using short by simp
      have pd: "take (ptr wb + length dat) d = pend @ dat"
        using short sum tot size by (simp add: d_def pend_def pending_def)
      have "write_post cfg st (refresh_can_tx_slots_available cfg st1)
              (split_frames cfg (pend @ dat))"
        unfolding sp using short sum tail ld d0 pd lp tl1
        by (simp add: write_post_def refresh_fields write_inv_def pending_def st1_def
            total_def)
      with w show ?thesis by (simp add: pend_def wb_def)
    qed
  qed
qed

text \<open>Cutting a stream into frames does not depend on where the stream is cut into chunks.\<close>

lemma split_frames_append:
  "split_frames cfg (s @ d) =
     (fst (split_frames cfg s) @ fst (split_frames cfg (snd (split_frames cfg s) @ d)),
      snd (split_frames cfg (snd (split_frames cfg s) @ d)))"
proof (induction cfg s rule: split_frames.induct)
  case (1 cfg s)
  show ?case
  proof (cases "s = []")
    case True
    then show ?thesis by (simp add: split_frames_Nil)
  next
    case ne: False
    show ?thesis
    proof (cases "pckt_len_of cfg (hd s) \<le> length s")
      case True
      have "split_frames cfg (s @ d) =
              (take (pckt_len_of cfg (hd s)) s #
                 fst (split_frames cfg (drop (pckt_len_of cfg (hd s)) s @ d)),
               snd (split_frames cfg (drop (pckt_len_of cfg (hd s)) s @ d)))"
        using split_frames_fit [of "s @ d" cfg] ne True by simp
      then show ?thesis
        using "1.IH" [OF ne True] ne True by (simp add: split_frames_fit [of s])
    next
      case False
      with ne show ?thesis by (simp add: split_frames_short)
    qed
  qed
qed

lemma split_frames_frames:
  "\<forall>f \<in> set fs. frame_ok cfg f \<Longrightarrow> split_frames cfg (concat fs) = (fs, [])"
proof (induction fs)
  case Nil
  show ?case by (simp add: split_frames_Nil)
next
  case (Cons f fs)
  then have f: "f \<noteq> []" "length f = pckt_len_of cfg (hd f)"
    by (simp_all add: frame_ok_def)
  have "split_frames cfg (f @ concat fs) =
          (take (length f) (f @ concat fs) # fst (split_frames cfg (drop (length f) (f @ concat fs))),
           snd (split_frames cfg (drop (length f) (f @ concat fs))))"
    using split_frames_fit [of "f @ concat fs" cfg] f by simp
  then show ?case using Cons by simp
qed

lemma pending_partial:
  assumes "cfg_ok cfg" and "write_inv cfg st"
  shows "split_frames cfg (pending (can_write_buffer st)) = ([], pending (can_write_buffer st))"
    and "length (pending (can_write_buffer st)) = ptr (can_write_buffer st)"
proof -
  define wb where "wb = can_write_buffer st"
  have size: "length (data wb) = 72" using assms(2) by (simp add: write_inv_def wb_def)
  have "split_frames cfg (pending wb) = ([], pending wb) \<and> length (pending wb) = ptr wb"
  proof (cases "ptr wb = 0")
    case True
    then show ?thesis by (simp add: pending_def split_frames_Nil)
  next
    case False
    then have tail: "1 \<le> tail_size wb"
      and sum: "ptr wb + tail_size wb = pckt_len_of cfg (data wb ! 0)"
      using assms(2) by (simp_all add: write_inv_def wb_def)
    have "pckt_len_of cfg (data wb ! 0) \<le> 70" using assms(1) by (rule pckt_len_bounds)
    with sum size have lp: "length (pending wb) = ptr wb" by (simp add: pending_def)
    have ne: "pending wb \<noteq> []" using False lp by auto
    have "data wb \<noteq> []" using size by auto
    then have "hd (data wb) = data wb ! 0" by (rule hd_conv_nth)
    moreover have "hd (pending wb) = hd (data wb)" using False by (simp add: pending_def)
    ultimately have "\<not> pckt_len_of cfg (hd (pending wb)) \<le> length (pending wb)"
      using sum tail lp by simp
    with ne lp show ?thesis by (simp add: split_frames_short)
  qed
  then show "split_frames cfg (pending (can_write_buffer st)) = ([], pending (can_write_buffer st))"
    and "length (pending (can_write_buffer st)) = ptr (can_write_buffer st)"
    by (simp_all add: wb_def)
qed

lemma write_all_spec:
  assumes cfg: "cfg_ok cfg"
  shows "\<forall>c \<in> set cs. length c + 72 \<le> 2 ^ 32 \<Longrightarrow> write_inv cfg st \<Longrightarrow>
         \<exists>st'. write_all cfg cs st = Some st' \<and>
           can_send_log st' = can_send_log st @
             map sent_as (fst (split_frames cfg (pending (can_write_buffer st) @ concat cs))) \<and>
           pending (can_write_buffer st') =
             snd (split_frames cfg (pending (can_write_buffer st) @ concat cs)) \<and>
           ptr (can_write_buffer st') =
             length (snd (split_frames cfg (pending (can_write_buffer st) @ concat cs))) \<and>
           can_read_buffer st' = can_read_buffer st \<and>
           can_rx_q st' = can_rx_q st \<and>
           write_inv cfg st'"
proof (induction cs arbitrary: st)
  case Nil
  then show ?case using pending_partial [OF cfg, of st] by simp
next
  case (Cons c cs)
  define s where "s = pending (can_write_buffer st) @ c"
  have "length c + 72 \<le> 2 ^ 32" using Cons.prems(1) by simp
  then obtain st1 where
    w: "comms_can_write cfg c st = Some st1" and
    post: "write_post cfg st st1 (split_frames cfg s)"
    using write_spec [OF cfg _ Cons.prems(2), of c] unfolding s_def by blast
  have inv1: "write_inv cfg st1" and p1: "pending (can_write_buffer st1) = snd (split_frames cfg s)"
    using post by (simp_all add: write_post_def)
  have "\<forall>c \<in> set cs. length c + 72 \<le> 2 ^ 32" using Cons.prems(1) by simp
  from Cons.IH [OF this inv1] obtain st' where
    run: "write_all cfg cs st1 = Some st'" and
    log: "can_send_log st' = can_send_log st1 @
            map sent_as (fst (split_frames cfg (pending (can_write_buffer st1) @ concat cs)))" and
    pend: "pending (can_write_buffer st') =
             snd (split_frames cfg (pending (can_write_buffer st1) @ concat cs))" and
    ptr: "ptr (can_write_buffer st') =
             length (snd (split_frames cfg (pending (can_write_buffer st1) @ concat cs)))" and
    rest: "can_read_buffer st' = can_read_buffer st1" "can_rx_q st' = can_rx_q st1"
          "write_inv cfg st'"
    by blast
  have app: "split_frames cfg (pending (can_write_buffer st) @ concat (c # cs)) =
          (fst (split_frames cfg s) @ fst (split_frames cfg (snd (split_frames cfg s) @ concat cs)),
           snd (split_frames cfg (snd (split_frames cfg s) @ concat cs)))"
    using split_frames_append [of cfg s "concat cs"] by (simp add: s_def)
  have "write_all cfg (c # cs) st = Some st'" using w run by simp
  moreover have "can_send_log st1 = can_send_log st @ map sent_as (fst (split_frames cfg s))"
    "can_read_buffer st1 = can_read_buffer st" "can_rx_q st1 = can_rx_q st"
    using post by (simp_all add: write_post_def)
  ultimately show ?case
    using log pend ptr rest unfolding app p1 by simp
qed

subsection \<open>The read side\<close>

text \<open>
  The loop writes what \<open>read_fill\<close> says; a whole call first drains the buffer. Seen as
  a stream, a call of capacity \<open>m\<close> hands over the next \<open>m\<close> bytes still owed, or all of
  them when they are fewer.
\<close>

lemma read_fill_length: "length (fst (read_fill cfg room q)) \<le> room"
proof (induction q arbitrary: room)
  case Nil
  show ?case by simp
next
  case (Cons p q)
  show ?case
    using Cons [of "room - length (wire cfg p)"] by (auto simp: case_prod_beta)
qed

lemma read_loop_done:
  "\<not> pos < length dat \<Longrightarrow> comms_can_read_loop cfg pos dat st = Some (pos, dat, st)"
  by (subst comms_can_read_loop.simps) simp

lemma read_loop_empty:
  "can_rx_q st = [] \<Longrightarrow> comms_can_read_loop cfg pos dat st = Some (pos, dat, st)"
  by (subst comms_can_read_loop.simps) (simp add: can_pop_def)

lemma wire_length:
  assumes "cfg_ok cfg" and "length p = CANPACKET_SIZE"
  shows "length (wire cfg p) = pckt_len_of cfg (hd p)"
proof -
  have "pckt_len_of cfg (hd p) \<le> 70" using assms(1) by (rule pckt_len_bounds)
  then show ?thesis using assms(2) by (simp add: wire_def CANPACKET_SIZE_def)
qed

lemma read_loop_spec:
  assumes cfg: "cfg_ok cfg"
  shows "can_rx_q st = q \<Longrightarrow> \<forall>p \<in> set q. length p = CANPACKET_SIZE \<Longrightarrow>
         ptr (can_read_buffer st) = 0 \<Longrightarrow> length (data (can_read_buffer st)) = 72 \<Longrightarrow>
         pos \<le> length dat \<Longrightarrow> length dat + 72 \<le> 2 ^ 32 \<Longrightarrow>
         \<exists>st'. comms_can_read_loop cfg pos dat st =
                 Some (pos + length (fst (read_fill cfg (length dat - pos) q)),
                       take pos dat @ fst (read_fill cfg (length dat - pos) q) @
                         drop (pos + length (fst (read_fill cfg (length dat - pos) q))) dat,
                       st') \<and>
               read_loop_post st st' (read_fill cfg (length dat - pos) q)"
proof (induction q arbitrary: st pos dat)
  case Nil
  then have "comms_can_read_loop cfg pos dat st = Some (pos, dat, st)"
    by (intro read_loop_empty) simp
  then show ?case using Nil by (simp add: read_loop_post_def)
next
  case (Cons p q)
  show ?case
  proof (cases "pos < length dat")
    case False
    then have "comms_can_read_loop cfg pos dat st = Some (pos, dat, st)"
      by (rule read_loop_done)
    then show ?thesis using False Cons.prems by (simp add: read_loop_post_def)
  next
    case True
    define n where "n = pckt_len_of cfg (hd p)"
    define w where "w = wire cfg p"
    have lp: "length p = 72" using Cons.prems(2) by (simp add: CANPACKET_SIZE_def)
    have pne: "p \<noteq> []" using lp by auto
    have hd: "p ! 0 = hd p" using pne by (simp add: hd_conv_nth)
    have pop: "can_pop (can_rx_q st) = Some (p, q)" using Cons.prems(1) by (simp add: can_pop_def)
    have code: "data_len_code_at p 0 = Some (unat (drop_bit 4 (hd p)))"
      using lp by (simp add: data_len_code_at_def hd)
    have look: "dlc_lookup (dlc_to_len cfg) (unat (drop_bit 4 (hd p))) =
                Some (dlc_to_len cfg ! unat (drop_bit 4 (hd p)))"
      using cfg by (rule dlc_lookup_ok)
    have nb: "6 \<le> n" "n \<le> 70"
      using pckt_len_bounds [OF cfg, of "hd p"] by (simp_all add: n_def)
    have len': "length dat + 72 \<le> 4294967296" using Cons.prems(6) by simp
    have pl: "u32_add CANPACKET_HEAD_SIZE (dlc_to_len cfg ! unat (drop_bit 4 (hd p))) = n"
      using nb(2) unfolding n_def pckt_len_of_def by (intro u32_add_id) simp
    have add: "u32_add pos n = pos + n"
      using True nb(2) len' by (intro u32_add_id) simp
    have lw: "length w = n" unfolding w_def n_def
      using cfg Cons.prems(2) by (intro wire_length) simp_all
    have wt: "w = take n p" by (simp add: w_def wire_def n_def)
    have room: "length dat - pos \<noteq> 0" using True by simp
    show ?thesis
    proof (cases "pos + n \<le> length dat")
      case fit: True
      define dat1 where "dat1 = take pos dat @ w @ drop (pos + n) dat"
      define st1 where "st1 = st\<lparr>can_rx_q := q\<rparr>"
      have mc: "memcpy dat pos p 0 n = Some dat1"
        using fit nb(2) lp by (simp add: memcpy_def dat1_def wt)
      have step: "comms_can_read_loop cfg pos dat st = comms_can_read_loop cfg (pos + n) dat1 st1"
        by (subst comms_can_read_loop.simps)
           (simp add: True pop code look pl add fit mc st1_def)
      have l1: "length dat1 = length dat" using fit lw by (simp add: dat1_def)
      define res where "res = read_fill cfg (length dat - (pos + n)) q"
      have "\<exists>st'. comms_can_read_loop cfg (pos + n) dat1 st1 =
                 Some (pos + n + length (fst (read_fill cfg (length dat1 - (pos + n)) q)),
                       take (pos + n) dat1 @ fst (read_fill cfg (length dat1 - (pos + n)) q) @
                         drop (pos + n + length (fst (read_fill cfg (length dat1 - (pos + n)) q))) dat1,
                       st') \<and>
               read_loop_post st1 st' (read_fill cfg (length dat1 - (pos + n)) q)"
        using Cons.prems fit l1 by (intro Cons.IH) (simp_all add: st1_def)
      then obtain st' where
        run: "comms_can_read_loop cfg (pos + n) dat1 st1 =
                 Some (pos + n + length (fst res),
                       take (pos + n) dat1 @ fst res @ drop (pos + n + length (fst res)) dat1,
                       st')" and
        post: "read_loop_post st1 st' res"
        unfolding l1 res_def by blast
      have fit': "length w \<le> length dat - pos"
        and rm: "length dat - pos - length w = length dat - (pos + n)"
        using fit lw by simp_all
      have rf: "read_fill cfg (length dat - pos) (p # q) = (w @ fst res, fst (snd res), snd (snd res))"
        using room fit' by (simp add: w_def [symmetric] res_def case_prod_beta rm lw)
      have lo: "length (fst res) \<le> length dat - (pos + n)"
        unfolding res_def by (rule read_fill_length)
      have t1: "take (pos + n) dat1 = take pos dat @ w"
        using fit lw by (simp add: dat1_def)
      have d1: "drop (pos + n + length (fst res)) dat1 = drop (pos + n + length (fst res)) dat"
        using fit lw lo by (simp add: dat1_def add_ac)
      have "read_loop_post st st' (read_fill cfg (length dat - pos) (p # q))"
        using post unfolding rf by (simp add: read_loop_post_def st1_def)
      moreover have "comms_can_read_loop cfg pos dat st =
          Some (pos + length (fst (read_fill cfg (length dat - pos) (p # q))),
                take pos dat @ fst (read_fill cfg (length dat - pos) (p # q)) @
                  drop (pos + length (fst (read_fill cfg (length dat - pos) (p # q)))) dat, st')"
        unfolding rf step run using lw d1 by (simp add: t1 add.assoc)
      ultimately show ?thesis by blast
    next
      case short: False
      define m where "m = length dat - pos"
      define rb where "rb = can_read_buffer st"
      have m: "0 < m" "m < n" using True short by (simp_all add: m_def)
      have sub: "u32_sub (length dat) pos = m"
        unfolding m_def using True len' by (intro u32_sub_id) simp_all
      have sub2: "u32_sub n m = n - m"
        using m nb(2) by (intro u32_sub_id) simp_all
      have add2: "u32_add (ptr rb) (n - m) = n - m"
        using Cons.prems(3) nb(2) by (simp add: rb_def u32_add_id)
      define dat1 where "dat1 = take pos dat @ take m w"
      define d where "d = drop m w @ drop (n - m) (data rb)"
      define st1 where "st1 = st\<lparr>can_rx_q := q, can_read_buffer := rb\<lparr>ptr := n - m, data := d\<rparr>\<rparr>"
      have mc1: "memcpy dat pos p 0 m = Some dat1"
        using m nb(2) lp True by (simp add: memcpy_def dat1_def wt m_def min_absorb2)
      have mc2: "memcpy (data rb) 0 p m (n - m) = Some d"
        using m nb(2) lp Cons.prems(4)
        by (simp add: memcpy_def d_def wt rb_def [symmetric] take_drop)
      have l1: "length dat1 = length dat" using m True lw by (simp add: dat1_def m_def)
      have step: "comms_can_read_loop cfg pos dat st = comms_can_read_loop cfg (length dat) dat1 st1"
        by (subst comms_can_read_loop.simps)
           (simp add: True pop code look pl add short sub sub2 add2 mc1 mc2 st1_def
              rb_def [symmetric] Let_def l1)
      have fin: "comms_can_read_loop cfg (length dat) dat1 st1 = Some (length dat, dat1, st1)"
        by (rule read_loop_done) (simp add: l1)
      have short': "\<not> length w \<le> length dat - pos" using short lw True by simp
      have rf: "read_fill cfg (length dat - pos) (p # q) = (take m w, drop m w, q)"
        using room short' by (simp add: w_def [symmetric] m_def)
      have "read_loop_post st st1 (read_fill cfg (length dat - pos) (p # q))"
        unfolding rf using m lw Cons.prems(4) nb(2)
        by (simp add: read_loop_post_def st1_def d_def rb_def)
      moreover have "comms_can_read_loop cfg pos dat st =
          Some (pos + length (fst (read_fill cfg (length dat - pos) (p # q))),
                take pos dat @ fst (read_fill cfg (length dat - pos) (p # q)) @
                  drop (pos + length (fst (read_fill cfg (length dat - pos) (p # q)))) dat, st1)"
        unfolding rf step fin using m lw True by (simp add: dat1_def m_def)
      ultimately show ?thesis by blast
    qed
  qed
qed

lemma read_fill_props:
  assumes cfg: "cfg_ok cfg"
  shows "\<forall>p \<in> set q. length p = CANPACKET_SIZE \<Longrightarrow>
         fst (read_fill cfg room q) @ fst (snd (read_fill cfg room q)) @
           concat (map (wire cfg) (snd (snd (read_fill cfg room q)))) = concat (map (wire cfg) q) \<and>
         (fst (snd (read_fill cfg room q)) \<noteq> [] \<longrightarrow> length (fst (read_fill cfg room q)) = room) \<and>
         (length (fst (read_fill cfg room q)) < room \<longrightarrow> snd (snd (read_fill cfg room q)) = []) \<and>
         length (fst (snd (read_fill cfg room q))) \<le> 70 \<and>
         set (snd (snd (read_fill cfg room q))) \<subseteq> set q"
proof (induction q arbitrary: room)
  case Nil
  show ?case by simp
next
  case (Cons p q)
  have lw: "length (wire cfg p) = pckt_len_of cfg (hd p)"
    using cfg Cons.prems by (intro wire_length) simp_all
  have "pckt_len_of cfg (hd p) \<le> 70" using cfg by (rule pckt_len_bounds)
  with lw have w70: "length (wire cfg p) \<le> 70" by simp
  have IH: "fst (read_fill cfg r q) @ fst (snd (read_fill cfg r q)) @
           concat (map (wire cfg) (snd (snd (read_fill cfg r q)))) = concat (map (wire cfg) q) \<and>
         (fst (snd (read_fill cfg r q)) \<noteq> [] \<longrightarrow> length (fst (read_fill cfg r q)) = r) \<and>
         (length (fst (read_fill cfg r q)) < r \<longrightarrow> snd (snd (read_fill cfg r q)) = []) \<and>
         length (fst (snd (read_fill cfg r q))) \<le> 70 \<and>
         set (snd (snd (read_fill cfg r q))) \<subseteq> set q" for r
    using Cons.prems by (intro Cons.IH) simp
  show ?case
  proof (cases "room = 0")
    case True
    then show ?thesis by simp
  next
    case nz: False
    show ?thesis
    proof (cases "length (wire cfg p) \<le> room")
      case True
      then show ?thesis
        using nz IH [of "room - length (wire cfg p)"]
        by (auto simp: case_prod_beta)
    next
      case False
      then show ?thesis using nz w70 by auto
    qed
  qed
qed

lemma read_spec_drain:
  assumes cfg: "cfg_ok cfg" and inv: "read_inv st" and len31: "length dat < 2 ^ 31"
    and fits: "ptr (can_read_buffer st) \<le> length dat"
  shows "\<exists>st'. comms_can_read cfg dat st =
           Some (int (ptr (can_read_buffer st) +
                   length (fst (read_fill cfg (length dat - ptr (can_read_buffer st)) (can_rx_q st)))),
                 pending (can_read_buffer st) @
                   fst (read_fill cfg (length dat - ptr (can_read_buffer st)) (can_rx_q st)) @
                   drop (ptr (can_read_buffer st) +
                     length (fst (read_fill cfg (length dat - ptr (can_read_buffer st)) (can_rx_q st)))) dat,
                 st') \<and>
           can_rx_q st' = snd (snd (read_fill cfg (length dat - ptr (can_read_buffer st)) (can_rx_q st))) \<and>
           ptr (can_read_buffer st') =
             length (fst (snd (read_fill cfg (length dat - ptr (can_read_buffer st)) (can_rx_q st)))) \<and>
           pending (can_read_buffer st') =
             fst (snd (read_fill cfg (length dat - ptr (can_read_buffer st)) (can_rx_q st))) \<and>
           length (data (can_read_buffer st')) = 72 \<and>
           tail_size (can_read_buffer st') = tail_size (can_read_buffer st) \<and>
           can_write_buffer st' = can_write_buffer st \<and>
           can_send_log st' = can_send_log st \<and>
           tx_slots_free st' = tx_slots_free st \<and>
           resume_log st' = resume_log st"
proof -
  define rb where "rb = can_read_buffer st"
  define k where "k = ptr rb"
  define res where "res = read_fill cfg (length dat - k) (can_rx_q st)"
  have size: "length (data rb) = 72" and k72: "k \<le> 72"
    and q: "\<forall>p \<in> set (can_rx_q st). length p = CANPACKET_SIZE"
    using inv by (simp_all add: read_inv_def rb_def k_def)
  have kl: "k \<le> length dat" using fits by (simp add: k_def rb_def)
  have len: "length dat + 72 \<le> 2 ^ 32" using len31 by simp
  have len': "length dat + 72 \<le> 4294967296" using len by simp
  have sub0: "u32_sub (length dat) 0 = length dat"
    using len' by (intro u32_sub_id [where b = 0 and a = "length dat", simplified]) simp
  define dat1 where "dat1 = take k (data rb) @ drop k dat"
  define st1 where "st1 = (if k = 0 then st
                           else st\<lparr>can_read_buffer := rb\<lparr>ptr := 0, data := data rb\<rparr>\<rparr>)"
  have l1: "length dat1 = length dat" using kl k72 size by (simp add: dat1_def)
  have st1: "can_rx_q st1 = can_rx_q st" "ptr (can_read_buffer st1) = 0"
    "length (data (can_read_buffer st1)) = 72"
    using size by (simp_all add: st1_def rb_def k_def)
  have "\<exists>st'. comms_can_read_loop cfg k dat1 st1 =
                 Some (k + length (fst (read_fill cfg (length dat1 - k) (can_rx_q st))),
                       take k dat1 @ fst (read_fill cfg (length dat1 - k) (can_rx_q st)) @
                         drop (k + length (fst (read_fill cfg (length dat1 - k) (can_rx_q st)))) dat1,
                       st') \<and>
               read_loop_post st1 st' (read_fill cfg (length dat1 - k) (can_rx_q st))"
    using st1 q kl len l1 by (intro read_loop_spec [OF cfg]) simp_all
  then obtain st' where
    run: "comms_can_read_loop cfg k dat1 st1 =
            Some (k + length (fst res), take k dat1 @ fst res @ drop (k + length (fst res)) dat1, st')"
    and post: "read_loop_post st1 st' res"
    unfolding l1 res_def by blast
  have t1: "take k dat1 = pending rb" using k72 size by (simp add: dat1_def pending_def k_def)
  have d1: "drop (k + length (fst res)) dat1 = drop (k + length (fst res)) dat"
    using k72 size by (simp add: dat1_def add.commute)
  have call: "comms_can_read cfg dat st =
                Option.bind (comms_can_read_loop cfg k dat1 st1)
                  (\<lambda>(pos, dat, st). Some (int_of_u32 pos, dat, st))"
  proof (cases "k = 0")
    case True
    then show ?thesis
      by (simp add: comms_can_read_def Let_def rb_def [symmetric] k_def [symmetric] st1_def dat1_def)
  next
    case False
    have ov: "min (length dat) k = k" using kl by simp
    have mc1: "memcpy dat 0 (data rb) 0 k = Some dat1"
      using kl k72 size by (simp add: memcpy_def dat1_def)
    have subk: "u32_sub k k = 0" using k72 by (simp add: u32_sub_id)
    have mc2: "memcpy (data rb) 0 (data rb) k 0 = Some (data rb)"
      using k72 size by (simp add: memcpy_def)
    have add0: "u32_add 0 k = k" using k72 by (simp add: u32_add_id)
    show ?thesis
      using False
      by (simp add: comms_can_read_def Let_def rb_def [symmetric] k_def [symmetric] sub0 ov
          mc1 subk mc2 add0 st1_def)
  qed
  have lo: "length (fst res) \<le> length dat - k"
    unfolding res_def by (rule read_fill_length)
  have conv: "int_of_u32 (k + length (fst res)) = int (k + length (fst res))"
    using lo kl len31 by (intro int_of_u32_id) simp
  have "pending (can_read_buffer st') = fst (snd res)"
    using post by (simp add: read_loop_post_def pending_def)
  moreover have "tail_size (can_read_buffer st1) = tail_size (can_read_buffer st)"
    "can_write_buffer st1 = can_write_buffer st" "can_send_log st1 = can_send_log st"
    "tx_slots_free st1 = tx_slots_free st" "resume_log st1 = resume_log st"
    by (simp_all add: st1_def rb_def)
  ultimately show ?thesis
    using post unfolding call run rb_def [symmetric] k_def [symmetric] res_def [symmetric]
    by (simp add: read_loop_post_def t1 d1 conv)
qed

lemma read_spec_stuck:
  assumes inv: "read_inv st"
    and more: "length dat < ptr (can_read_buffer st)"
  shows "\<exists>st'. comms_can_read cfg dat st =
           Some (int (length dat), take (length dat) (pending (can_read_buffer st)), st') \<and>
           can_rx_q st' = can_rx_q st \<and>
           ptr (can_read_buffer st') = ptr (can_read_buffer st) - length dat \<and>
           pending (can_read_buffer st') = drop (length dat) (pending (can_read_buffer st)) \<and>
           length (data (can_read_buffer st')) = 72 \<and>
           tail_size (can_read_buffer st') = tail_size (can_read_buffer st) \<and>
           can_write_buffer st' = can_write_buffer st \<and>
           can_send_log st' = can_send_log st \<and>
           tx_slots_free st' = tx_slots_free st \<and>
           resume_log st' = resume_log st"
proof -
  define rb where "rb = can_read_buffer st"
  define k where "k = ptr rb"
  define m where "m = length dat"
  have size: "length (data rb) = 72" and k72: "k \<le> 72"
    using inv by (simp_all add: read_inv_def rb_def k_def)
  have mk: "m < k" using more by (simp add: k_def rb_def m_def)
  have sub0: "u32_sub m 0 = m"
    using mk k72 by (intro u32_sub_id [where b = 0 and a = m, simplified]) simp
  have ov: "min m k = m" using mk by simp
  define d where "d = take (k - m) (drop m (data rb)) @ drop (k - m) (data rb)"
  have mc1: "memcpy dat 0 (data rb) 0 m = Some (take m (data rb))"
    using mk k72 size by (simp add: memcpy_def m_def)
  have subk: "u32_sub k m = k - m" using mk k72 by (intro u32_sub_id) simp_all
  have mc2: "memcpy (data rb) 0 (data rb) m (k - m) = Some d"
    using mk k72 size by (simp add: memcpy_def d_def)
  have add0: "u32_add 0 m = m" using mk k72 by (simp add: u32_add_id)
  define st1 where "st1 = st\<lparr>can_read_buffer := rb\<lparr>ptr := k - m, data := d\<rparr>\<rparr>"
  have conv: "int_of_u32 m = int m" using mk k72 by (intro int_of_u32_id) simp
  have call: "comms_can_read cfg dat st = Some (int m, take m (data rb), st1)"
    using mk
    by (simp add: comms_can_read_def Let_def rb_def [symmetric] k_def [symmetric]
        m_def [symmetric] sub0 ov mc1 subk mc2 add0 st1_def conv)
  have "take m (data rb) = take m (pending rb)"
    using mk by (simp add: pending_def k_def [symmetric] min_absorb1)
  moreover have "pending (can_read_buffer st1) = drop m (pending rb)"
    using mk k72 size by (simp add: st1_def pending_def d_def k_def [symmetric] drop_take)
  moreover have "length d = 72" using mk k72 size by (simp add: d_def)
  ultimately show ?thesis
    unfolding call rb_def [symmetric] k_def [symmetric] m_def [symmetric]
    by (simp add: st1_def)
qed

lemma pending_length:
  "read_inv st \<Longrightarrow> length (pending (can_read_buffer st)) = ptr (can_read_buffer st)"
  by (simp add: read_inv_def pending_def)

lemma read_stream:
  assumes cfg: "cfg_ok cfg" and inv: "read_inv st" and len: "length dat < 2 ^ 31"
  shows "\<exists>n dat' st'. comms_can_read cfg dat st = Some (int n, dat', st') \<and>
           n = min (length dat) (length (rx_stream cfg st)) \<and>
           take n dat' = take n (rx_stream cfg st) \<and>
           drop n dat' = drop n dat \<and>
           length dat' = length dat \<and>
           rx_stream cfg st' = drop n (rx_stream cfg st) \<and>
           read_inv st' \<and>
           tail_size (can_read_buffer st') = tail_size (can_read_buffer st) \<and>
           can_write_buffer st' = can_write_buffer st \<and>
           can_send_log st' = can_send_log st \<and>
           tx_slots_free st' = tx_slots_free st \<and>
           resume_log st' = resume_log st"
proof (cases "ptr (can_read_buffer st) \<le> length dat")
  case True
  define k where "k = ptr (can_read_buffer st)"
  define pd where "pd = pending (can_read_buffer st)"
  define res where "res = read_fill cfg (length dat - k) (can_rx_q st)"
  define out where "out = fst res"
  define sfx where "sfx = fst (snd res)"
  define q' where "q' = snd (snd res)"
  define Q where "Q = concat (map (wire cfg) (can_rx_q st))"
  have q: "\<forall>p \<in> set (can_rx_q st). length p = CANPACKET_SIZE"
    using inv by (simp add: read_inv_def)
  have lpd: "length pd = k" using inv by (simp add: pd_def k_def pending_length)
  have kl: "k \<le> length dat" using True by (simp add: k_def)
  obtain st' where
    call: "comms_can_read cfg dat st =
             Some (int (k + length out), pd @ out @ drop (k + length out) dat, st')"
    and st': "can_rx_q st' = q'" "ptr (can_read_buffer st') = length sfx"
      "pending (can_read_buffer st') = sfx" "length (data (can_read_buffer st')) = 72"
    and same: "tail_size (can_read_buffer st') = tail_size (can_read_buffer st)"
      "can_write_buffer st' = can_write_buffer st" "can_send_log st' = can_send_log st"
      "tx_slots_free st' = tx_slots_free st" "resume_log st' = resume_log st"
    using read_spec_drain [OF cfg inv len True]
    unfolding k_def [symmetric] pd_def [symmetric] res_def [symmetric] out_def [symmetric]
      sfx_def [symmetric] q'_def [symmetric]
    by blast
  have props: "out @ sfx @ concat (map (wire cfg) q') = Q"
    "sfx \<noteq> [] \<longrightarrow> length out = length dat - k"
    "length out < length dat - k \<longrightarrow> q' = []"
    "length sfx \<le> 70" "set q' \<subseteq> set (can_rx_q st)"
    using read_fill_props [OF cfg q, of "length dat - k"]
    unfolding res_def [symmetric] out_def [symmetric] sfx_def [symmetric] q'_def [symmetric]
      Q_def [symmetric]
    by simp_all
  have lo: "length out \<le> length dat - k"
    unfolding out_def res_def by (rule read_fill_length)
  define n where "n = k + length out"
  have S: "rx_stream cfg st = (pd @ out) @ sfx @ concat (map (wire cfg) q')"
    using props(1) by (simp add: rx_stream_def pd_def Q_def)
  have ln: "length (pd @ out) = n" using lpd by (simp add: n_def)
  have nmin: "n = min (length dat) (length (rx_stream cfg st))"
  proof (cases "length out < length dat - k")
    case True
    with props(2,3) have "sfx = []" "q' = []" by auto
    then have "length (rx_stream cfg st) = n" using S ln by simp
    moreover have "n \<le> length dat" using lo kl by (simp add: n_def)
    ultimately show ?thesis by simp
  next
    case False
    with lo kl have "n = length dat" by (simp add: n_def)
    moreover have "n \<le> length (rx_stream cfg st)" using S ln by simp
    ultimately show ?thesis by simp
  qed
  have nl: "n \<le> length dat" using nmin by simp
  have "take n (pd @ out @ drop n dat) = take n (rx_stream cfg st)"
    using ln unfolding S by simp
  moreover have "drop n (pd @ out @ drop n dat) = drop n dat"
    using ln by simp
  moreover have "length (pd @ out @ drop n dat) = length dat"
    using ln nl by simp
  moreover have "rx_stream cfg st' = drop n (rx_stream cfg st)"
    using ln st' unfolding S by (simp add: rx_stream_def)
  moreover have "read_inv st'"
    using st' props(4,5) q by (auto simp: read_inv_def)
  ultimately show ?thesis
    using call same nmin unfolding n_def [symmetric] by blast
next
  case False
  define k where "k = ptr (can_read_buffer st)"
  define pd where "pd = pending (can_read_buffer st)"
  have more: "length dat < ptr (can_read_buffer st)" using False by simp
  have lpd: "length pd = k" using inv by (simp add: pd_def k_def pending_length)
  have q: "\<forall>p \<in> set (can_rx_q st). length p = CANPACKET_SIZE"
    and k72: "k \<le> 72"
    using inv by (simp_all add: read_inv_def k_def)
  obtain st' where
    call: "comms_can_read cfg dat st = Some (int (length dat), take (length dat) pd, st')"
    and st': "can_rx_q st' = can_rx_q st" "ptr (can_read_buffer st') = k - length dat"
      "pending (can_read_buffer st') = drop (length dat) pd"
      "length (data (can_read_buffer st')) = 72"
    and same: "tail_size (can_read_buffer st') = tail_size (can_read_buffer st)"
      "can_write_buffer st' = can_write_buffer st" "can_send_log st' = can_send_log st"
      "tx_slots_free st' = tx_slots_free st" "resume_log st' = resume_log st"
    using read_spec_stuck [OF inv more, of cfg]
    unfolding k_def [symmetric] pd_def [symmetric] by blast
  have lk: "length dat < k" using more by (simp add: k_def)
  have S: "rx_stream cfg st = pd @ concat (map (wire cfg) (can_rx_q st))"
    by (simp add: rx_stream_def pd_def)
  have "length dat = min (length dat) (length (rx_stream cfg st))"
    using lk lpd unfolding S by simp
  moreover have "take (length dat) (take (length dat) pd) = take (length dat) (rx_stream cfg st)"
    using lk lpd unfolding S by simp
  moreover have "drop (length dat) (take (length dat) pd) = drop (length dat) dat"
    by simp
  moreover have "length (take (length dat) pd) = length dat" using lk lpd by simp
  moreover have "rx_stream cfg st' = drop (length dat) (rx_stream cfg st)"
    using lk lpd st' unfolding S by (simp add: rx_stream_def)
  moreover have "read_inv st'" using st' q k72 by (simp add: read_inv_def)
  ultimately show ?thesis using call same by blast
qed

lemma read_all_spec:
  assumes cfg: "cfg_ok cfg"
  shows "\<forall>b \<in> set bufs. length b < 2 ^ 31 \<Longrightarrow> read_inv st \<Longrightarrow>
         \<exists>st'. read_all cfg bufs st =
                 Some (take (sum_list (map length bufs)) (rx_stream cfg st), st') \<and>
               rx_stream cfg st' = drop (sum_list (map length bufs)) (rx_stream cfg st) \<and>
               read_inv st'"
proof (induction bufs arbitrary: st)
  case Nil
  then show ?case by simp
next
  case (Cons b bufs)
  define S where "S = rx_stream cfg st"
  define T where "T = sum_list (map length bufs)"
  have "length b < 2 ^ 31" using Cons.prems(1) by simp
  from read_stream [OF cfg Cons.prems(2) this] obtain n dat' st1 where
    call: "comms_can_read cfg b st = Some (int n, dat', st1)" and
    n: "n = min (length b) (length S)" and
    out: "take n dat' = take n S" and
    str: "rx_stream cfg st1 = drop n S" and
    inv1: "read_inv st1"
    unfolding S_def by blast
  have "\<forall>b \<in> set bufs. length b < 2 ^ 31" using Cons.prems(1) by simp
  from Cons.IH [OF this inv1] obtain st' where
    run: "read_all cfg bufs st1 = Some (take T (drop n S), st')" and
    str': "rx_stream cfg st' = drop T (drop n S)" and
    inv': "read_inv st'"
    unfolding str T_def by blast
  have a: "take n S @ take T (drop n S) = take (length b + T) S"
  proof (cases "length b \<le> length S")
    case True
    then have "n = length b" using n by simp
    then show ?thesis by (simp add: take_add)
  next
    case False
    then have "n = length S" using n by simp
    then show ?thesis using False by simp
  qed
  have b: "drop T (drop n S) = drop (length b + T) S"
  proof (cases "length b \<le> length S")
    case True
    then have "n = length b" using n by simp
    then show ?thesis by (simp add: add.commute)
  next
    case False
    then show ?thesis using n by simp
  qed
  have "read_all cfg (b # bufs) st = Some (take (length b + T) S, st')"
    using call run out a by simp
  then show ?case using str' inv' b by (simp add: S_def T_def)
qed

lemma rx_stream_empty:
  assumes cfg: "cfg_ok cfg" and inv: "read_inv st" and e: "rx_stream cfg st = []"
  shows "ptr (can_read_buffer st) = 0" and "can_rx_q st = []"
proof -
  have "length (pending (can_read_buffer st)) = 0" using e by (simp add: rx_stream_def)
  then show "ptr (can_read_buffer st) = 0" using inv by (simp add: pending_length)
  show "can_rx_q st = []"
  proof (cases "can_rx_q st")
    case Nil
    then show ?thesis .
  next
    case (Cons p q)
    then have "length p = CANPACKET_SIZE" using inv by (simp add: read_inv_def)
    with cfg have "length (wire cfg p) = pckt_len_of cfg (hd p)" by (rule wire_length)
    moreover have "6 \<le> pckt_len_of cfg (hd p)" using cfg by (rule pckt_len_bounds)
    moreover have "wire cfg p = []" using e Cons by (simp add: rx_stream_def)
    ultimately show ?thesis by simp
  qed
qed

subsection \<open>Runs\<close>

text \<open>Both invariants hold at start-up and every well-formed event keeps them.\<close>

lemma init_inv: "write_inv cfg comms_init" "read_inv comms_init"
  by (simp_all add: write_inv_def read_inv_def comms_init_def)

lemma step_inv:
  assumes cfg: "cfg_ok cfg" and ok: "event_ok e"
    and w: "write_inv cfg st" and r: "read_inv st"
  shows "\<exists>st'. step cfg e st = Some st' \<and> write_inv cfg st' \<and> read_inv st'"
proof (cases e)
  case Reset
  then show ?thesis using w r by (simp add: comms_can_reset_def write_inv_def read_inv_def)
next
  case (Write dat)
  then have "length dat + 72 \<le> 2 ^ 32" using ok by simp
  from write_spec [OF cfg this w] obtain st' where
    "comms_can_write cfg dat st = Some st'"
    "write_post cfg st st' (split_frames cfg (pending (can_write_buffer st) @ dat))"
    by blast
  then show ?thesis using Write r by (simp add: write_post_def read_inv_def)
next
  case (Read dat)
  then have "length dat < 2 ^ 31" using ok by simp
  from read_stream [OF cfg r this] obtain n dat' st' where
    "comms_can_read cfg dat st = Some (int n, dat', st')" "read_inv st'"
    "can_write_buffer st' = can_write_buffer st"
    by blast
  then show ?thesis using Read w by (simp add: write_inv_def)
next
  case (Rx p)
  then show ?thesis using ok w r by (simp add: write_inv_def read_inv_def)
next
  case (Tx free)
  then show ?thesis using w r by (simp add: write_inv_def read_inv_def)
qed

lemma run_inv:
  assumes cfg: "cfg_ok cfg"
  shows "\<forall>e \<in> set es. event_ok e \<Longrightarrow> write_inv cfg st \<Longrightarrow> read_inv st \<Longrightarrow>
         \<exists>st'. run cfg es st = Some st' \<and> write_inv cfg st' \<and> read_inv st'"
proof (induction es arbitrary: st)
  case Nil
  then show ?case by simp
next
  case (Cons e es)
  then have "event_ok e" by simp
  from step_inv [OF cfg this Cons.prems(2,3)] obtain st1 where
    s: "step cfg e st = Some st1" and i: "write_inv cfg st1" "read_inv st1"
    by blast
  have "\<forall>e \<in> set es. event_ok e" using Cons.prems(1) by simp
  from Cons.IH [OF this i] s show ?case by simp
qed

lemma read_fill_partial:
  assumes cfg: "cfg_ok cfg"
  shows "\<forall>x \<in> set (fs @ p # rest). length x = CANPACKET_SIZE \<Longrightarrow>
         length (concat (map (wire cfg) fs)) < room \<Longrightarrow>
         room < length (concat (map (wire cfg) fs)) + length (wire cfg p) \<Longrightarrow>
         read_fill cfg room (fs @ p # rest) =
           (concat (map (wire cfg) fs) @ take (room - length (concat (map (wire cfg) fs))) (wire cfg p),
            drop (room - length (concat (map (wire cfg) fs))) (wire cfg p), rest)"
proof (induction fs arbitrary: room)
  case Nil
  then show ?case by simp
next
  case (Cons f fs)
  define L where "L = length (concat (map (wire cfg) fs))"
  have a: "length (wire cfg f) + L < room" using Cons.prems(2) by (simp add: L_def)
  have b: "room < length (wire cfg f) + L + length (wire cfg p)"
    using Cons.prems(3) by (simp add: L_def)
  have "read_fill cfg (room - length (wire cfg f)) (fs @ p # rest) =
          (concat (map (wire cfg) fs) @ take (room - length (wire cfg f) - L) (wire cfg p),
           drop (room - length (wire cfg f) - L) (wire cfg p), rest)"
    unfolding L_def using Cons.prems(1) a b by (intro Cons.IH) (simp_all add: L_def)
  moreover have "room - length (wire cfg f) - L = room - (length (wire cfg f) + L)" by simp
  ultimately show ?case using a by (simp add: L_def)
qed

lemma fd_decls_ok: "cfg_ok fd_decls"
  by (simp add: cfg_ok_def fd_decls_def)

lemma reset_inv:
  "length (data (can_write_buffer st)) = 72 \<Longrightarrow> write_inv cfg (comms_can_reset st)"
  by (simp add: write_inv_def comms_can_reset_def)

lemma reset_pending: "pending (can_write_buffer (comms_can_reset st)) = []"
  by (simp add: pending_def comms_can_reset_def)

section \<open>The properties\<close>

text \<open>
  C1. Write-side reassembly. Take any frames, each as long as its first byte says, and
  cut the bytes of their concatenation into chunks in any way (in the middle of a header
  or of a payload, one byte at a time, with empty chunks). Calling \<^verbatim>\<open>comms_can_write\<close>
  once for each chunk, from a state just reset, returns every time, and the calls of
  \<^verbatim>\<open>can_send\<close> made are exactly one for each frame, in order, each with the packet
  that holds the bytes of the frame and nothing else but zeros; no byte is left in the
  buffer at the end. The length of a chunk leaves room below \<open>2 ^ 32\<close> for one more
  packet, as every array of a 32-bit address space does.
\<close>

theorem write_reassembly:
  assumes "cfg_ok cfg"
    and "\<forall>f \<in> set frames. frame_ok cfg f"
    and "concat chunks = concat frames"
    and "\<forall>c \<in> set chunks. length c + 72 \<le> 2 ^ 32"
    and "length (data (can_write_buffer st)) = 72"
  shows "\<exists>st'. write_all cfg chunks (comms_can_reset st) = Some st' \<and>
           can_send_log st' = can_send_log st @ map sent_as frames \<and>
           ptr (can_write_buffer st') = 0"
proof -
  have inv: "write_inv cfg (comms_can_reset st)" using assms(5) by (rule reset_inv)
  have sp: "split_frames cfg (concat chunks) = (frames, [])"
    unfolding assms(3) using assms(2) by (rule split_frames_frames)
  have lg: "can_send_log (comms_can_reset st) = can_send_log st"
    by (simp add: comms_can_reset_def)
  from write_all_spec [OF assms(1) assms(4) inv] obtain st' where
    "write_all cfg chunks (comms_can_reset st) = Some st'"
    "can_send_log st' = can_send_log st @ map sent_as frames"
    "ptr (can_write_buffer st') = 0"
    unfolding reset_pending lg by (auto simp: sp)
  then show ?thesis by blast
qed

text \<open>
  The theorem at two frames of 7 and 6 bytes cut into chunks of 1, 3, 5 and 4 bytes.
\<close>

theorem write_reassembly_witness:
  "\<exists>st'. write_all fd_decls [[0x12], [1, 2, 3], [4, 5, 0xAA, 0x04, 9], [8, 7, 6, 5]]
            (comms_can_reset comms_init) = Some st' \<and>
         can_send_log st' =
           [sent_as [0x12, 1, 2, 3, 4, 5, 0xAA], sent_as [0x04, 9, 8, 7, 6, 5]] \<and>
         ptr (can_write_buffer st') = 0"
proof -
  have frames: "\<forall>f \<in> set [[0x12, 1, 2, 3, 4, 5, 0xAA], [0x04, 9, 8, 7, 6, 5 :: u8]].
                  frame_ok fd_decls f"
    by (simp add: frame_ok_def pckt_len_of_def CANPACKET_HEAD_SIZE_def fd_decls_def)
  have chunks: "concat [[0x12], [1, 2, 3], [4, 5, 0xAA, 0x04, 9], [8, 7, 6, 5 :: u8]] =
                concat [[0x12, 1, 2, 3, 4, 5, 0xAA], [0x04, 9, 8, 7, 6, 5]]"
    by simp
  have sizes: "\<forall>c \<in> set [[0x12], [1, 2, 3], [4, 5, 0xAA, 0x04, 9], [8, 7, 6, 5 :: u8]].
                 length c + 72 \<le> 2 ^ 32"
    by simp
  have buf: "length (data (can_write_buffer comms_init)) = 72"
    by (simp add: comms_init_def)
  have "can_send_log comms_init = []" by (simp add: comms_init_def)
  then show ?thesis
    using write_reassembly [OF fd_decls_ok frames chunks sizes buf] by simp
qed

text \<open>
  C2. Read-side chunking invariance. Take a state whose read buffer is empty and whose
  queue holds any packets, and destination arrays of any capacities whose sum is at least
  the number of bytes the packets put on the wire (a capacity of zero is allowed too, and
  every capacity is below \<open>2 ^ 31\<close>, so that the count returned as an \<^verbatim>\<open>int\<close> is the
  number of bytes written). Calling \<^verbatim>\<open>comms_can_read\<close> once for each array returns every
  time, and the bytes returned, call after call, are exactly the bytes of the packets in
  pop order: none twice, none changed, none missing. The queue and the buffer are empty
  at the end.
\<close>

theorem read_chunking:
  assumes "cfg_ok cfg"
    and "\<forall>p \<in> set (can_rx_q st). length p = CANPACKET_SIZE"
    and "ptr (can_read_buffer st) = 0"
    and "length (data (can_read_buffer st)) = 72"
    and "\<forall>b \<in> set bufs. length b < 2 ^ 31"
    and "length (concat (map (wire cfg) (can_rx_q st))) \<le> sum_list (map length bufs)"
  shows "\<exists>st'. read_all cfg bufs st = Some (concat (map (wire cfg) (can_rx_q st)), st') \<and>
           can_rx_q st' = [] \<and> ptr (can_read_buffer st') = 0"
proof -
  have inv: "read_inv st" using assms(2,3,4) by (simp add: read_inv_def)
  have S: "rx_stream cfg st = concat (map (wire cfg) (can_rx_q st))"
    using assms(3) by (simp add: rx_stream_def pending_def)
  from read_all_spec [OF assms(1) assms(5) inv] obtain st' where
    run: "read_all cfg bufs st = Some (take (sum_list (map length bufs)) (rx_stream cfg st), st')"
    and str: "rx_stream cfg st' = drop (sum_list (map length bufs)) (rx_stream cfg st)"
    and inv': "read_inv st'"
    by blast
  have "rx_stream cfg st' = []" using str assms(6) by (simp add: S)
  from rx_stream_empty [OF assms(1) inv' this] run assms(6) show ?thesis by (simp add: S)
qed

text \<open>
  The theorem at two packets of 7 and 6 bytes on the wire, read with capacities 4, 1
  and 64.
\<close>

theorem read_chunking_witness:
  "\<exists>st'. read_all fd_decls [replicate 4 0, replicate 1 0, replicate 64 0]
            (comms_init\<lparr>can_rx_q := [to_packet [0x12, 1, 2, 3, 4, 5, 0xAA],
                                      to_packet [0x04, 9, 8, 7, 6, 5]]\<rparr>) =
           Some ([0x12, 1, 2, 3, 4, 5, 0xAA, 0x04, 9, 8, 7, 6, 5], st') \<and>
         can_rx_q st' = [] \<and> ptr (can_read_buffer st') = 0"
proof -
  define st where "st = comms_init\<lparr>can_rx_q := [to_packet [0x12, 1, 2, 3, 4, 5, 0xAA],
                                                  to_packet [0x04, 9, 8, 7, 6, 5]]\<rparr>"
  have q: "\<forall>p \<in> set (can_rx_q st). length p = CANPACKET_SIZE"
    by (simp add: st_def to_packet_def CANPACKET_SIZE_def)
  have p0: "ptr (can_read_buffer st) = 0" and sz: "length (data (can_read_buffer st)) = 72"
    by (simp_all add: st_def comms_init_def)
  have bufs: "\<forall>b \<in> set [replicate 4 0, replicate 1 0, replicate 64 (0 :: u8)].
                 length b < 2 ^ 31"
    by simp
  have w: "concat (map (wire fd_decls) (can_rx_q st)) =
             [0x12, 1, 2, 3, 4, 5, 0xAA, 0x04, 9, 8, 7, 6, 5]"
    by (simp add: st_def wire_def pckt_len_of_def to_packet_def fd_decls_def
        CANPACKET_HEAD_SIZE_def CANPACKET_SIZE_def)
  have total: "length (concat (map (wire fd_decls) (can_rx_q st))) \<le>
                 sum_list (map length [replicate 4 0, replicate 1 0, replicate 64 (0 :: u8)])"
    unfolding w by simp
  from read_chunking [OF fd_decls_ok q p0 sz bufs total] obtain st' where
    "read_all fd_decls [replicate 4 0, replicate 1 0, replicate 64 0] st =
       Some ([0x12, 1, 2, 3, 4, 5, 0xAA, 0x04, 9, 8, 7, 6, 5], st')"
    "can_rx_q st' = []" "ptr (can_read_buffer st') = 0"
    unfolding w by blast
  then show ?thesis unfolding st_def by blast
qed

text \<open>
  C3. Write-side invariant. After every sequence of events from start-up (resets, writes
  and reads with arguments of any content, packets received, slots freed), the run
  returns and, if \<^verbatim>\<open>can_write_buffer.ptr\<close> is positive, \<^verbatim>\<open>ptr + tail_size\<close> is the length on
  the wire of the frame in the buffer: \<^verbatim>\<open>CANPACKET_HEAD_SIZE\<close> plus the payload length
  that the table gives for the code in the upper four bits of the first buffered byte.
  Every prefix of a sequence is a sequence, so this holds after every single operation.
\<close>

theorem write_buffer_invariant:
  assumes "cfg_ok cfg" and "\<forall>e \<in> set es. event_ok e"
  shows "\<exists>st. run cfg es comms_init = Some st \<and>
           (0 < ptr (can_write_buffer st) \<longrightarrow>
              ptr (can_write_buffer st) + tail_size (can_write_buffer st) =
                CANPACKET_HEAD_SIZE +
                  dlc_to_len cfg ! unat (drop_bit 4 (data (can_write_buffer st) ! 0)))"
proof -
  from run_inv [OF assms init_inv] obtain st where
    "run cfg es comms_init = Some st" "write_inv cfg st"
    by blast
  then show ?thesis by (auto simp: write_inv_def pckt_len_of_def)
qed

text \<open>
  The theorem at a run that ends with one byte of a 7-byte frame in the buffer: a write
  of three bytes, a reset, a packet received, a write of a 6-byte frame and one more
  byte, and a read.
\<close>

theorem write_buffer_invariant_witness:
  "\<exists>st. run fd_decls [Write [0x12, 1, 2], Reset, Rx (to_packet [0x04, 9, 8, 7, 6, 5]),
                       Write [0x02, 0, 0, 0, 0, 0, 0x10], Read (replicate 4 0)] comms_init =
           Some st \<and>
         ptr (can_write_buffer st) = 1 \<and> tail_size (can_write_buffer st) = 6 \<and>
         data (can_write_buffer st) ! 0 = 0x10 \<and>
         ptr (can_write_buffer st) + tail_size (can_write_buffer st) =
           CANPACKET_HEAD_SIZE +
             dlc_to_len fd_decls ! unat (drop_bit 4 (data (can_write_buffer st) ! 0))"
proof -
  define es where "es = [Write [0x12, 1, 2], Reset, Rx (to_packet [0x04, 9, 8, 7, 6, 5]),
                         Write [0x02, 0, 0, 0, 0, 0, 0x10], Read (replicate 4 0)]"
  have ok: "\<forall>e \<in> set es. event_ok e"
    unfolding es_def by (simp add: to_packet_def CANPACKET_SIZE_def)
  have ev: "map_option (\<lambda>s. (ptr (can_write_buffer s), tail_size (can_write_buffer s),
                              data (can_write_buffer s) ! 0))
              (run fd_decls es comms_init) = Some (1, 6, 0x10)"
    unfolding es_def by (simp add: eval_defs to_packet_def)
  from write_buffer_invariant [OF fd_decls_ok ok] obtain st where
    r: "run fd_decls es comms_init = Some st" and
    i: "0 < ptr (can_write_buffer st) \<longrightarrow>
          ptr (can_write_buffer st) + tail_size (can_write_buffer st) =
            CANPACKET_HEAD_SIZE +
              dlc_to_len fd_decls ! unat (drop_bit 4 (data (can_write_buffer st) ! 0))"
    by (elim exE conjE)
  from ev r have p: "ptr (can_write_buffer st) = 1" "tail_size (can_write_buffer st) = 6"
    "data (can_write_buffer st) ! 0 = 0x10"
    by simp_all
  from i p(1) have "ptr (can_write_buffer st) + tail_size (can_write_buffer st) =
            CANPACKET_HEAD_SIZE +
              dlc_to_len fd_decls ! unat (drop_bit 4 (data (can_write_buffer st) ! 0))"
    by simp
  with r p have "\<exists>st. run fd_decls es comms_init = Some st \<and>
         ptr (can_write_buffer st) = 1 \<and> tail_size (can_write_buffer st) = 6 \<and>
         data (can_write_buffer st) ! 0 = 0x10 \<and>
         ptr (can_write_buffer st) + tail_size (can_write_buffer st) =
           CANPACKET_HEAD_SIZE +
             dlc_to_len fd_decls ! unat (drop_bit 4 (data (can_write_buffer st) ! 0))"
    by (intro exI [of _ st] conjI)
  then show ?thesis unfolding es_def .
qed



text \<open>
  C5. The staging buffers are never overrun. In the model a \<^verbatim>\<open>memcpy\<close> that leaves
  either of its arrays has no result (\<open>memcpy_in_bounds\<close>), and so has the call that
  makes it. With payloads of at most 64 bytes, every sequence of events from start-up
  returns: no store into \<^verbatim>\<open>can_read_buffer.data\<close> or \<^verbatim>\<open>can_write_buffer.data\<close> leaves the
  72 bytes of the array. The arrays keep their 72 bytes and neither \<^verbatim>\<open>ptr\<close> exceeds 72.
\<close>

theorem buffers_never_overrun:
  assumes "cfg_ok cfg" and "\<forall>e \<in> set es. event_ok e"
  shows "\<exists>st. run cfg es comms_init = Some st \<and>
           ptr (can_read_buffer st) \<le> 72 \<and>
           ptr (can_write_buffer st) \<le> 72 \<and>
           length (data (can_read_buffer st)) = 72 \<and>
           length (data (can_write_buffer st)) = 72"
proof -
  from run_inv [OF assms init_inv] obtain st where
    r: "run cfg es comms_init = Some st" and w: "write_inv cfg st" and rd: "read_inv st"
    by blast
  have "ptr (can_write_buffer st) \<le> 72"
  proof (cases "ptr (can_write_buffer st) = 0")
    case True
    then show ?thesis by simp
  next
    case False
    then have "ptr (can_write_buffer st) + tail_size (can_write_buffer st) =
                 pckt_len_of cfg (data (can_write_buffer st) ! 0)"
      using w by (simp add: write_inv_def)
    moreover have "pckt_len_of cfg (data (can_write_buffer st) ! 0) \<le> 70"
      using assms(1) by (rule pckt_len_bounds)
    ultimately show ?thesis by simp
  qed
  then show ?thesis using r w rd by (simp add: write_inv_def read_inv_def)
qed

text \<open>
  The theorem at a run that fills both buffers as far as a frame of 70 bytes can: the
  read buffer keeps 66 bytes of a packet, the write buffer 69 bytes of a frame.
\<close>

theorem buffers_never_overrun_witness:
  "\<exists>st. run fd_decls [Rx (to_packet (0xF1 # replicate 69 0xEE)), Read (replicate 1 0),
                       Write (0xF3 # replicate 68 0xDD), Read (replicate 3 0)] comms_init =
           Some st \<and>
         ptr (can_read_buffer st) = 66 \<and>
         ptr (can_write_buffer st) = 69 \<and>
         length (data (can_read_buffer st)) = 72 \<and>
         length (data (can_write_buffer st)) = 72"
proof -
  define es where "es = [Rx (to_packet (0xF1 # replicate 69 0xEE)), Read (replicate 1 0),
                         Write (0xF3 # replicate 68 0xDD), Read (replicate 3 0)]"
  have ok: "\<forall>e \<in> set es. event_ok e"
    unfolding es_def by (simp add: to_packet_def CANPACKET_SIZE_def)
  have ev: "map_option (\<lambda>s. (ptr (can_read_buffer s), ptr (can_write_buffer s)))
              (run fd_decls es comms_init) = Some (66, 69)"
    unfolding es_def by (simp add: eval_defs to_packet_def)
  from buffers_never_overrun [OF fd_decls_ok ok] obtain st where
    r: "run fd_decls es comms_init = Some st" and
    l: "length (data (can_read_buffer st)) = 72" "length (data (can_write_buffer st)) = 72"
    by (elim exE conjE)
  from ev r have p: "ptr (can_read_buffer st) = 66" "ptr (can_write_buffer st) = 69"
    by simp_all
  from r p l have "\<exists>st. run fd_decls es comms_init = Some st \<and>
         ptr (can_read_buffer st) = 66 \<and>
         ptr (can_write_buffer st) = 69 \<and>
         length (data (can_read_buffer st)) = 72 \<and>
         length (data (can_write_buffer st)) = 72"
    by (intro exI [of _ st] conjI)
  then show ?thesis unfolding es_def .
qed

text \<open>
  C6. Capacity bound and partial frame on the read side. \<open>dat\<close> is the destination array
  with what it held before the call, and its length is \<^verbatim>\<open>max_len\<close>, a value of \<^verbatim>\<open>int\<close>.
  The call returns some \<open>n \<le> max_len\<close>, the array keeps its length, and the bytes from
  \<open>n\<close> on are untouched.
  When the queue is \<open>fs @ p # rest\<close>, the tail in the buffer and the packets \<open>fs\<close> leave
  room in the destination, and \<open>p\<close> does not fit what is left, then the destination is
  filled to capacity with the tail, the bytes of \<open>fs\<close> and the prefix of \<open>p\<close> that fits;
  the suffix of \<open>p\<close> is in the read buffer with \<^verbatim>\<open>ptr\<close> its length; and the queue is
  \<open>rest\<close>: nothing more was popped.
\<close>

theorem read_capacity_and_partial_frame:
  assumes "cfg_ok cfg" and "read_inv st" and "length dat < 2 ^ 31"
  shows "\<exists>n dat' st'. comms_can_read cfg dat st = Some (int n, dat', st') \<and>
           n \<le> length dat \<and> length dat' = length dat \<and> drop n dat' = drop n dat \<and>
           (can_rx_q st = fs @ p # rest \<and>
            ptr (can_read_buffer st) + length (concat (map (wire cfg) fs)) < length dat \<and>
            length dat < ptr (can_read_buffer st) + length (concat (map (wire cfg) fs)) +
                           length (wire cfg p) \<longrightarrow>
              n = length dat \<and>
              dat' = pending (can_read_buffer st) @ concat (map (wire cfg) fs) @
                       take (length dat -
                             (ptr (can_read_buffer st) + length (concat (map (wire cfg) fs))))
                         (wire cfg p) \<and>
              ptr (can_read_buffer st') =
                length (wire cfg p) -
                  (length dat - (ptr (can_read_buffer st) + length (concat (map (wire cfg) fs)))) \<and>
              pending (can_read_buffer st') =
                drop (length dat - (ptr (can_read_buffer st) + length (concat (map (wire cfg) fs))))
                  (wire cfg p) \<and>
              can_rx_q st' = rest)"
proof (cases "ptr (can_read_buffer st) \<le> length dat")
  case True
  define k where "k = ptr (can_read_buffer st)"
  define pd where "pd = pending (can_read_buffer st)"
  define res where "res = read_fill cfg (length dat - k) (can_rx_q st)"
  define L where "L = length (concat (map (wire cfg) fs))"
  have lpd: "length pd = k" using assms(2) by (simp add: pd_def k_def pending_length)
  have kl: "k \<le> length dat" using True by (simp add: k_def)
  obtain st' where
    call: "comms_can_read cfg dat st =
             Some (int (k + length (fst res)), pd @ fst res @ drop (k + length (fst res)) dat, st')"
    and q': "can_rx_q st' = snd (snd res)"
    and p': "ptr (can_read_buffer st') = length (fst (snd res))"
    and pend': "pending (can_read_buffer st') = fst (snd res)"
    using read_spec_drain [OF assms True]
    unfolding k_def [symmetric] pd_def [symmetric] res_def [symmetric]
    by blast
  have lo: "length (fst res) \<le> length dat - k"
    unfolding res_def by (rule read_fill_length)
  define n where "n = k + length (fst res)"
  define dat' where "dat' = pd @ fst res @ drop n dat"
  have a: "n \<le> length dat" using lo kl by (simp add: n_def)
  have b: "length dat' = length dat" using a lpd by (simp add: dat'_def n_def)
  have c: "drop n dat' = drop n dat" using lpd by (simp add: dat'_def n_def)
  have part: "n = length dat \<and>
      dat' = pd @ concat (map (wire cfg) fs) @ take (length dat - (k + L)) (wire cfg p) \<and>
      ptr (can_read_buffer st') = length (wire cfg p) - (length dat - (k + L)) \<and>
      pending (can_read_buffer st') = drop (length dat - (k + L)) (wire cfg p) \<and>
      can_rx_q st' = rest"
    if q: "can_rx_q st = fs @ p # rest" and lt: "k + L < length dat"
      and gt: "length dat < k + L + length (wire cfg p)"
  proof -
    have wf: "\<forall>x \<in> set (fs @ p # rest). length x = CANPACKET_SIZE"
      using assms(2) q by (simp add: read_inv_def)
    have "length (concat (map (wire cfg) fs)) < length dat - k" using lt by (simp add: L_def)
    moreover have "length dat - k < length (concat (map (wire cfg) fs)) + length (wire cfg p)"
      using gt kl by (simp add: L_def)
    ultimately have rf: "res = (concat (map (wire cfg) fs) @ take (length dat - k - L) (wire cfg p),
                          drop (length dat - k - L) (wire cfg p), rest)"
      unfolding res_def q L_def using wf by (intro read_fill_partial [OF assms(1)])
    have e: "length dat - k - L = length dat - (k + L)" by simp
    have ln: "length (fst res) = length dat - k"
      using lt gt unfolding rf by (simp add: L_def)
    have "n = length dat" using ln kl by (simp add: n_def)
    then show ?thesis using q' p' pend' unfolding dat'_def rf e by simp
  qed
  have call': "comms_can_read cfg dat st = Some (int n, dat', st')"
    using call by (simp add: n_def dat'_def)
  have "\<exists>n dat' st'. comms_can_read cfg dat st = Some (int n, dat', st') \<and>
           n \<le> length dat \<and> length dat' = length dat \<and> drop n dat' = drop n dat \<and>
           (can_rx_q st = fs @ p # rest \<and> k + L < length dat \<and>
            length dat < k + L + length (wire cfg p) \<longrightarrow>
              n = length dat \<and>
              dat' = pd @ concat (map (wire cfg) fs) @ take (length dat - (k + L)) (wire cfg p) \<and>
              ptr (can_read_buffer st') = length (wire cfg p) - (length dat - (k + L)) \<and>
              pending (can_read_buffer st') = drop (length dat - (k + L)) (wire cfg p) \<and>
              can_rx_q st' = rest)"
    using call' a b c part by blast
  then show ?thesis unfolding k_def pd_def L_def .
next
  case False
  then have more: "length dat < ptr (can_read_buffer st)" by simp
  from read_spec_stuck [OF assms(2) more, of cfg] obtain st' where
    call: "comms_can_read cfg dat st =
             Some (int (length dat), take (length dat) (pending (can_read_buffer st)), st')"
    by blast
  have "length (pending (can_read_buffer st)) = ptr (can_read_buffer st)"
    using assms(2) by (rule pending_length)
  then have "length (take (length dat) (pending (can_read_buffer st))) = length dat"
    using more by simp
  then show ?thesis using call more by auto
qed

text \<open>
  The theorem at a capacity of 10 and three packets of 7, 6 and 6 bytes on the wire: the
  first goes out whole, the second is cut after 3 bytes, the third stays in the queue.
\<close>

theorem read_capacity_and_partial_frame_witness:
  "\<exists>n dat' st'.
     comms_can_read fd_decls (replicate 10 0)
       (comms_init\<lparr>can_rx_q := [to_packet [0x12, 1, 2, 3, 4, 5, 0xAA],
                                 to_packet [0x04, 9, 8, 7, 6, 5],
                                 to_packet [0x06, 0, 0, 0, 0, 6]]\<rparr>) = Some (int n, dat', st') \<and>
     n = 10 \<and> dat' = [0x12, 1, 2, 3, 4, 5, 0xAA, 0x04, 9, 8] \<and>
     ptr (can_read_buffer st') = 3 \<and> pending (can_read_buffer st') = [7, 6, 5] \<and>
     can_rx_q st' = [to_packet [0x06, 0, 0, 0, 0, 6]]"
proof -
  define p1 :: "u8 list" where "p1 = to_packet [0x12, 1, 2, 3, 4, 5, 0xAA]"
  define p2 :: "u8 list" where "p2 = to_packet [0x04, 9, 8, 7, 6, 5]"
  define p3 :: "u8 list" where "p3 = to_packet [0x06, 0, 0, 0, 0, 6]"
  define st where "st = comms_init\<lparr>can_rx_q := [p1, p2, p3]\<rparr>"
  define dat :: "u8 list" where "dat = replicate 10 0"
  have w1: "wire fd_decls p1 = [0x12, 1, 2, 3, 4, 5, 0xAA]"
    and w2: "wire fd_decls p2 = [0x04, 9, 8, 7, 6, 5]"
    by (simp_all add: p1_def p2_def wire_def pckt_len_of_def to_packet_def fd_decls_def
        CANPACKET_HEAD_SIZE_def CANPACKET_SIZE_def)
  have inv: "read_inv st"
    by (simp add: read_inv_def st_def comms_init_def p1_def p2_def p3_def to_packet_def
        CANPACKET_SIZE_def)
  have len: "length dat < 2 ^ 31" by (simp add: dat_def)
  have pd0: "pending (can_read_buffer st) = []"
    by (simp add: st_def comms_init_def pending_def)
  have pre: "can_rx_q st = [p1] @ p2 # [p3] \<and>
             ptr (can_read_buffer st) + length (concat (map (wire fd_decls) [p1])) < length dat \<and>
             length dat < ptr (can_read_buffer st) + length (concat (map (wire fd_decls) [p1])) +
                            length (wire fd_decls p2)"
    by (simp add: st_def comms_init_def dat_def w1 w2)
  from read_capacity_and_partial_frame [OF fd_decls_ok inv len, of "[p1]" p2 "[p3]"]
  obtain n dat' st' where
    call: "comms_can_read fd_decls dat st = Some (int n, dat', st')" and
    imp: "can_rx_q st = [p1] @ p2 # [p3] \<and>
            ptr (can_read_buffer st) + length (concat (map (wire fd_decls) [p1])) < length dat \<and>
            length dat < ptr (can_read_buffer st) + length (concat (map (wire fd_decls) [p1])) +
                           length (wire fd_decls p2) \<longrightarrow>
              n = length dat \<and>
              dat' = pending (can_read_buffer st) @ concat (map (wire fd_decls) [p1]) @
                       take (length dat -
                             (ptr (can_read_buffer st) + length (concat (map (wire fd_decls) [p1]))))
                         (wire fd_decls p2) \<and>
              ptr (can_read_buffer st') =
                length (wire fd_decls p2) -
                  (length dat - (ptr (can_read_buffer st) + length (concat (map (wire fd_decls) [p1])))) \<and>
              pending (can_read_buffer st') =
                drop (length dat - (ptr (can_read_buffer st) + length (concat (map (wire fd_decls) [p1]))))
                  (wire fd_decls p2) \<and>
              can_rx_q st' = [p3]"
    by (elim exE conjE)
  from mp [OF imp pre] have
    "n = 10" "dat' = [0x12, 1, 2, 3, 4, 5, 0xAA, 0x04, 9, 8]"
    "ptr (can_read_buffer st') = 3" "pending (can_read_buffer st') = [7, 6, 5]"
    "can_rx_q st' = [p3]"
    by (simp_all add: pd0 w1 w2) (simp_all add: st_def comms_init_def dat_def)
  with call have "\<exists>n dat' st'. comms_can_read fd_decls dat st = Some (int n, dat', st') \<and>
     n = 10 \<and> dat' = [0x12, 1, 2, 3, 4, 5, 0xAA, 0x04, 9, 8] \<and>
     ptr (can_read_buffer st') = 3 \<and> pending (can_read_buffer st') = [7, 6, 5] \<and>
     can_rx_q st' = [p3]"
    by (intro exI [of _ n] exI [of _ dat'] exI [of _ st'] conjI)
  then show ?thesis unfolding st_def dat_def p1_def p2_def p3_def .
qed

text \<open>
  C7. Reset. \<^verbatim>\<open>comms_can_reset\<close> sets \<^verbatim>\<open>ptr\<close> and \<^verbatim>\<open>tail_size\<close> of both buffers to zero and
  changes nothing else: not the arrays, the queue, the frames submitted, the transmit
  slots or the signals. A second reset changes nothing more, and a reset of buffers that
  are empty already leaves the state as it is.
\<close>

theorem reset_idempotent:
  "ptr (can_read_buffer (comms_can_reset st)) = 0 \<and>
   tail_size (can_read_buffer (comms_can_reset st)) = 0 \<and>
   ptr (can_write_buffer (comms_can_reset st)) = 0 \<and>
   tail_size (can_write_buffer (comms_can_reset st)) = 0 \<and>
   data (can_read_buffer (comms_can_reset st)) = data (can_read_buffer st) \<and>
   data (can_write_buffer (comms_can_reset st)) = data (can_write_buffer st) \<and>
   can_rx_q (comms_can_reset st) = can_rx_q st \<and>
   can_send_log (comms_can_reset st) = can_send_log st \<and>
   tx_slots_free (comms_can_reset st) = tx_slots_free st \<and>
   resume_log (comms_can_reset st) = resume_log st \<and>
   comms_can_reset (comms_can_reset st) = comms_can_reset st \<and>
   (ptr (can_read_buffer st) = 0 \<and> tail_size (can_read_buffer st) = 0 \<and>
    ptr (can_write_buffer st) = 0 \<and> tail_size (can_write_buffer st) = 0 \<longrightarrow>
      comms_can_reset st = st)"
  by (simp add: comms_can_reset_def)

text \<open>
  The theorem at the start-up state, whose buffers are empty.
\<close>

theorem reset_idempotent_witness:
  "comms_can_reset (comms_can_reset comms_init) = comms_can_reset comms_init \<and>
   comms_can_reset comms_init = comms_init"
proof -
  have "ptr (can_read_buffer comms_init) = 0 \<and> tail_size (can_read_buffer comms_init) = 0 \<and>
        ptr (can_write_buffer comms_init) = 0 \<and> tail_size (can_write_buffer comms_init) = 0"
    by (simp add: comms_init_def)
  with reset_idempotent [of comms_init] show ?thesis by (elim conjE impE) simp_all
qed

text \<open>
  C8. Read starvation. With an empty queue and an empty read buffer,
  \<^verbatim>\<open>comms_can_read\<close> returns 0 and leaves the destination and the whole state as they
  are, for a destination of 64 bytes as for any other.
\<close>

theorem read_starvation:
  assumes "can_rx_q st = []" and "ptr (can_read_buffer st) = 0"
  shows "comms_can_read cfg dat st = Some (0, dat, st)"
  using assms by (simp add: comms_can_read_def read_loop_empty int_of_u32_def)

text \<open>
  The theorem at a destination of 64 bytes and the start-up state.
\<close>

theorem read_starvation_witness:
  "comms_can_read fd_decls (replicate 64 0) comms_init = Some (0, replicate 64 0, comms_init)"
proof -
  have "can_rx_q comms_init = []" and "ptr (can_read_buffer comms_init) = 0"
    by (simp_all add: comms_init_def)
  then show ?thesis by (rule read_starvation)
qed

text \<open>
  C9. Admission check after every write. In every state reachable from start-up, a call
  of \<^verbatim>\<open>comms_can_write\<close> returns, whether or not it leaves a frame incomplete, and the
  signals it adds are those of one admission check on the pool as the call leaves it:
  the USB signal exactly when at least \<^verbatim>\<open>MAX_CAN_MSGS_PER_USB_BULK_TRANSFER\<close> slots are
  free, then the SPI signal exactly when at least \<^verbatim>\<open>MAX_CAN_MSGS_PER_SPI_BULK_TRANSFER\<close>
  are, each test on its own.
\<close>

theorem admission_check_after_write:
  assumes "cfg_ok cfg" and "\<forall>e \<in> set es. event_ok e"
    and "run cfg es comms_init = Some st"
    and "length dat + 72 \<le> 2 ^ 32"
  shows "\<exists>st'. comms_can_write cfg dat st = Some st' \<and>
           resume_log st' = resume_log st @
             (if MAX_CAN_MSGS_PER_USB_BULK_TRANSFER cfg \<le> tx_slots_free st' then [USB] else []) @
             (if MAX_CAN_MSGS_PER_SPI_BULK_TRANSFER cfg \<le> tx_slots_free st' then [SPI] else [])"
proof -
  from run_inv [OF assms(1,2) init_inv] assms(3) have inv: "write_inv cfg st" by auto
  from write_spec [OF assms(1) assms(4) inv] obtain st' where
    "comms_can_write cfg dat st = Some st'"
    "write_post cfg st st' (split_frames cfg (pending (can_write_buffer st) @ dat))"
    by blast
  then show ?thesis by (simp add: write_post_def resume_signals_def)
qed

text \<open>
  The theorem at a pool of 52 free slots and a write of one frame and two more bytes:
  the frame takes a slot, 51 are left, the USB signal is given and the SPI signal
  (170 slots) is not, while two bytes wait in the buffer.
\<close>

theorem admission_check_after_write_witness:
  "\<exists>st'. comms_can_write fd_decls [0x12, 1, 2, 3, 4, 5, 0xAA, 0x04, 9]
            (comms_init\<lparr>tx_slots_free := 52\<rparr>) = Some st' \<and>
         tx_slots_free st' = 51 \<and> ptr (can_write_buffer st') = 2 \<and>
         resume_log st' = [USB]"
proof -
  define st where "st = comms_init\<lparr>tx_slots_free := 52\<rparr>"
  define dat :: "u8 list" where "dat = [0x12, 1, 2, 3, 4, 5, 0xAA, 0x04, 9]"
  have ok: "\<forall>e \<in> set [Tx 52]. event_ok e" by simp
  have r: "run fd_decls [Tx 52] comms_init = Some st" by (simp add: st_def)
  have len: "length dat + 72 \<le> 2 ^ 32" by (simp add: dat_def)
  have ev: "map_option (\<lambda>s. (tx_slots_free s, ptr (can_write_buffer s)))
              (comms_can_write fd_decls dat st) = Some (51, 2)"
    unfolding st_def dat_def by (simp add: eval_defs)
  from admission_check_after_write [OF fd_decls_ok ok r len] obtain st' where
    w: "comms_can_write fd_decls dat st = Some st'" and
    l: "resume_log st' = resume_log st @
          (if MAX_CAN_MSGS_PER_USB_BULK_TRANSFER fd_decls \<le> tx_slots_free st' then [USB] else []) @
          (if MAX_CAN_MSGS_PER_SPI_BULK_TRANSFER fd_decls \<le> tx_slots_free st' then [SPI] else [])"
    by (elim exE conjE)
  from ev w have p: "tx_slots_free st' = 51" "ptr (can_write_buffer st') = 2" by simp_all
  from l p(1) have "resume_log st' = [USB]"
    by (simp add: st_def comms_init_def fd_decls_def)
  with w p have "\<exists>st'. comms_can_write fd_decls dat st = Some st' \<and>
         tx_slots_free st' = 51 \<and> ptr (can_write_buffer st') = 2 \<and> resume_log st' = [USB]"
    by (intro exI [of _ st'] conjI)
  then show ?thesis unfolding st_def dat_def .
qed

text \<open>
  C10. A partial frame always has its first byte. After any calls of \<^verbatim>\<open>comms_can_write\<close>
  since a reset, the buffer holds exactly the bytes of the input that follow its last
  complete frame. When \<^verbatim>\<open>ptr\<close> is positive, \<^verbatim>\<open>data[0]\<close> is the first byte of that
  unfinished frame, \<^verbatim>\<open>tail_size\<close> is at least 1, the table lookup for the code of
  \<^verbatim>\<open>data[0]\<close> is defined, and \<^verbatim>\<open>ptr + tail_size\<close> is the length it gives: a partial frame
  of unknown length is never recorded.
\<close>

theorem partial_frame_has_first_byte:
  assumes "cfg_ok cfg"
    and "\<forall>c \<in> set chunks. length c + 72 \<le> 2 ^ 32"
    and "length (data (can_write_buffer st)) = 72"
  shows "\<exists>st'. write_all cfg chunks (comms_can_reset st) = Some st' \<and>
           ptr (can_write_buffer st') = length (snd (split_frames cfg (concat chunks))) \<and>
           take (ptr (can_write_buffer st')) (data (can_write_buffer st')) =
             snd (split_frames cfg (concat chunks)) \<and>
           (0 < ptr (can_write_buffer st') \<longrightarrow>
              data (can_write_buffer st') ! 0 = hd (snd (split_frames cfg (concat chunks))) \<and>
              1 \<le> tail_size (can_write_buffer st') \<and>
              dlc_lookup (dlc_to_len cfg)
                  (unat (drop_bit 4 (data (can_write_buffer st') ! 0))) =
                Some (dlc_to_len cfg ! unat (drop_bit 4 (data (can_write_buffer st') ! 0))) \<and>
              ptr (can_write_buffer st') + tail_size (can_write_buffer st') =
                CANPACKET_HEAD_SIZE +
                  dlc_to_len cfg ! unat (drop_bit 4 (data (can_write_buffer st') ! 0)))"
proof -
  define r where "r = snd (split_frames cfg (concat chunks))"
  have inv: "write_inv cfg (comms_can_reset st)" using assms(3) by (rule reset_inv)
  from write_all_spec [OF assms(1) assms(2) inv] obtain st' where
    run: "write_all cfg chunks (comms_can_reset st) = Some st'" and
    pend: "pending (can_write_buffer st') = r" and
    ptr: "ptr (can_write_buffer st') = length r" and
    inv': "write_inv cfg st'"
    unfolding reset_pending r_def by auto
  have tk: "take (ptr (can_write_buffer st')) (data (can_write_buffer st')) = r"
    using pend by (simp add: pending_def)
  have first: "data (can_write_buffer st') ! 0 = hd r" if "0 < ptr (can_write_buffer st')"
  proof -
    have "r \<noteq> []" using that ptr by auto
    then have "hd r = r ! 0" by (rule hd_conv_nth)
    also have "\<dots> = take (ptr (can_write_buffer st')) (data (can_write_buffer st')) ! 0"
      by (simp only: tk)
    also have "\<dots> = data (can_write_buffer st') ! 0" using that by simp
    finally show ?thesis by simp
  qed
  have look: "dlc_lookup (dlc_to_len cfg) (unat (drop_bit 4 (data (can_write_buffer st') ! 0))) =
                Some (dlc_to_len cfg ! unat (drop_bit 4 (data (can_write_buffer st') ! 0)))"
    using assms(1) by (rule dlc_lookup_ok)
  show ?thesis
    using run ptr tk first look inv' unfolding r_def [symmetric]
    by (auto simp: write_inv_def pckt_len_of_def)
qed

text \<open>
  The theorem at four bytes of a 7-byte frame, written in two chunks.
\<close>

theorem partial_frame_has_first_byte_witness:
  "\<exists>st'. write_all fd_decls [[0x12, 1], [2, 3]] (comms_can_reset comms_init) = Some st' \<and>
         ptr (can_write_buffer st') = 4 \<and>
         take 4 (data (can_write_buffer st')) = [0x12, 1, 2, 3] \<and>
         data (can_write_buffer st') ! 0 = 0x12 \<and>
         tail_size (can_write_buffer st') = 3 \<and>
         dlc_lookup (dlc_to_len fd_decls) (unat (drop_bit 4 (data (can_write_buffer st') ! 0))) =
           Some 1"
proof -
  define chunks :: "u8 list list" where "chunks = [[0x12, 1], [2, 3]]"
  have sizes: "\<forall>c \<in> set chunks. length c + 72 \<le> 2 ^ 32" by (simp add: chunks_def)
  have buf: "length (data (can_write_buffer comms_init)) = 72" by (simp add: comms_init_def)
  have ev: "map_option (\<lambda>s. (ptr (can_write_buffer s), take 4 (data (can_write_buffer s)),
                              tail_size (can_write_buffer s)))
              (write_all fd_decls chunks (comms_can_reset comms_init)) =
            Some (4, [0x12, 1, 2, 3], 3)"
    unfolding chunks_def by (simp add: eval_defs)
  from partial_frame_has_first_byte [OF fd_decls_ok sizes buf] obtain st' where
    w: "write_all fd_decls chunks (comms_can_reset comms_init) = Some st'" and
    i: "0 < ptr (can_write_buffer st') \<longrightarrow>
          data (can_write_buffer st') ! 0 = hd (snd (split_frames fd_decls (concat chunks))) \<and>
          1 \<le> tail_size (can_write_buffer st') \<and>
          dlc_lookup (dlc_to_len fd_decls)
              (unat (drop_bit 4 (data (can_write_buffer st') ! 0))) =
            Some (dlc_to_len fd_decls ! unat (drop_bit 4 (data (can_write_buffer st') ! 0))) \<and>
          ptr (can_write_buffer st') + tail_size (can_write_buffer st') =
            CANPACKET_HEAD_SIZE +
              dlc_to_len fd_decls ! unat (drop_bit 4 (data (can_write_buffer st') ! 0))"
    by (elim exE conjE)
  from ev w have p: "ptr (can_write_buffer st') = 4"
    "take 4 (data (can_write_buffer st')) = [0x12, 1, 2, 3]"
    "tail_size (can_write_buffer st') = 3"
    by simp_all
  have "take 4 (data (can_write_buffer st')) ! 0 = data (can_write_buffer st') ! 0" by simp
  then have d0: "data (can_write_buffer st') ! 0 = 0x12" unfolding p(2) by simp
  have pos: "0 < ptr (can_write_buffer st')" unfolding p(1) by simp
  from mp [OF i pos] have "dlc_lookup (dlc_to_len fd_decls)
              (unat (drop_bit 4 (data (can_write_buffer st') ! 0))) =
            Some (dlc_to_len fd_decls ! unat (drop_bit 4 (data (can_write_buffer st') ! 0)))"
    by (elim conjE)
  then have lk: "dlc_lookup (dlc_to_len fd_decls)
              (unat (drop_bit 4 (data (can_write_buffer st') ! 0))) = Some 1"
    unfolding d0 by (simp add: fd_decls_def)
  from w p d0 lk have "\<exists>st'. write_all fd_decls chunks (comms_can_reset comms_init) = Some st' \<and>
         ptr (can_write_buffer st') = 4 \<and>
         take 4 (data (can_write_buffer st')) = [0x12, 1, 2, 3] \<and>
         data (can_write_buffer st') ! 0 = 0x12 \<and>
         tail_size (can_write_buffer st') = 3 \<and>
         dlc_lookup (dlc_to_len fd_decls) (unat (drop_bit 4 (data (can_write_buffer st') ! 0))) =
           Some 1"
    by (intro exI [of _ st'] conjI)
  then show ?thesis unfolding chunks_def .
qed

end
